theory Spec2Isabelle
  imports Main "HOL-Library.Word" "HOL-Library.Monad_Syntax"
begin

section \<open>Kyber CPA encryption and CCA encapsulation (encryption.hpp, encapsulation.hpp)\<close>

text \<open>
  The two routines \<^verbatim>\<open>cpapke::encrypt\<close> and \<^verbatim>\<open>ccakem::encapsulate\<close> are embedded
  statement by statement. Every C++ array is a list, every pointer argument is the list
  of the elements from the pointed-to address to the end of its buffer, and every access
  is checked against the length of the list: an access outside a buffer (undefined
  behaviour in C++) makes the model return \<open>None\<close>. A \<^verbatim>\<open>size_t\<close> index is a natural
  number (the template parameters are small constants, no index comes near
  \<open>2 ^ 64\<close>), a \<^verbatim>\<open>uint8_t\<close> is an 8-bit word, so that the counter \<^verbatim>\<open>N\<close> and the casts
  \<^verbatim>\<open>static_cast<uint8_t>(i)\<close> wrap modulo 256 as in the source.
\<close>

subsection \<open>Bytes, field elements, buffers\<close>

type_synonym byte = "8 word"

text \<open>
  Modelled from the spec: the type \<^verbatim>\<open>ff::ff_t\<close> of the absent header \<^verbatim>\<open>ff.hpp\<close>. The spec
  stores an element of Z_q as an unsigned 16-bit word canonicalized into [0, q); a
  value-initialised element and an element set by \<^verbatim>\<open>memset(_, 0, _)\<close> are the word 0.
\<close>

type_synonym ff_t = "16 word"

text \<open>Modelled from the spec: the modulus q = 3329 of the absent header \<^verbatim>\<open>ff.hpp\<close>.\<close>

definition ff_q :: nat where
  "ff_q = 3329"

text \<open>
  Modelled from the spec: the operator \<^verbatim>\<open>+=\<close> of \<^verbatim>\<open>ff::ff_t\<close> (absent header \<^verbatim>\<open>ff.hpp\<close>),
  the addition of Z_q.
\<close>

definition ff_add :: "ff_t \<Rightarrow> ff_t \<Rightarrow> ff_t" where
  "ff_add a b = of_nat ((unat a + unat b) mod ff_q)"

text \<open>
  Modelled from the spec: the constant \<^verbatim>\<open>ntt::N\<close> of the absent header \<^verbatim>\<open>ntt.hpp\<close>; a
  polynomial is a sequence of 256 field elements.
\<close>

definition ntt_N :: nat where
  "ntt_N = 256"

text \<open>Reading \<open>n\<close> elements at offset \<open>off\<close>, and overwriting a run of elements at \<open>off\<close>.\<close>

definition read_at :: "'a list \<Rightarrow> nat \<Rightarrow> nat \<Rightarrow> 'a list option" where
  "read_at buf off n = (if off + n \<le> length buf then Some (take n (drop off buf)) else None)"

definition write_at :: "'a list \<Rightarrow> nat \<Rightarrow> 'a list \<Rightarrow> 'a list option" where
  "write_at buf off xs =
     (if off + length xs \<le> length buf
      then Some (take off buf @ xs @ drop (off + length xs) buf) else None)"

definition get_at :: "'a list \<Rightarrow> nat \<Rightarrow> 'a option" where
  "get_at buf i = (if i < length buf then Some (buf ! i) else None)"

definition put_at :: "'a list \<Rightarrow> nat \<Rightarrow> 'a \<Rightarrow> 'a list option" where
  "put_at buf i x = (if i < length buf then Some (buf[i := x]) else None)"

text \<open>Pointer arithmetic \<^verbatim>\<open>p + off\<close> on a read-only pointer.\<close>

definition ptr_add :: "'a list \<Rightarrow> nat \<Rightarrow> 'a list option" where
  "ptr_add buf off = (if off \<le> length buf then Some (drop off buf) else None)"

text \<open>\<^verbatim>\<open>for (size_t i = 0; i < n; i++) body\<close> is \<open>for_each [0..<n] body\<close>.\<close>

primrec for_each :: "nat list \<Rightarrow> (nat \<Rightarrow> 's \<Rightarrow> 's option) \<Rightarrow> 's \<Rightarrow> 's option" where
  "for_each [] body s = Some s"
| "for_each (i # is) body s = Option.bind (body i s) (for_each is body)"

text \<open>
  The loop \<^verbatim>\<open>for (size_t l = 0; l < ntt::N; l++) dst[doff + l] += src[soff + l];\<close>
  which the source writes five times.
\<close>

definition add_into :: "ff_t list \<Rightarrow> nat \<Rightarrow> ff_t list \<Rightarrow> nat \<Rightarrow> ff_t list option" where
  "add_into dst doff src soff =
     for_each [0..<ntt_N] (\<lambda>l d. do {
       a \<leftarrow> get_at d (doff + l);
       b \<leftarrow> get_at src (soff + l);
       put_at d (doff + l) (ff_add a b)
     }) dst"

text \<open>A routine that transforms one polynomial in place: \<^verbatim>\<open>f(buf + off)\<close>.\<close>

definition in_place :: "(ff_t list \<Rightarrow> ff_t list) \<Rightarrow> ff_t list \<Rightarrow> nat \<Rightarrow> ff_t list option" where
  "in_place f buf off = do {
     p \<leftarrow> read_at buf off ntt_N;
     write_at buf off (f p)
   }"

subsection \<open>The routines of the absent headers\<close>

text \<open>
  The hash adapters, the sampling, serialization, compression and NTT routines and the
  random number generator are called by the two routines but are not part of them. They
  are parameters of the model. \<open>'g\<close> and \<open>'h\<close> are the states of a SHAKE128 and a
  SHAKE256 object, \<open>'r\<close> is the state of the system random number generator.
  \<open>shake128_hash\<close> and \<open>shake256_hash\<close> give the state of a fresh object after
  \<^verbatim>\<open>hash(in, len)\<close>; the first argument of \<open>cbd\<close>, \<open>decode\<close>, \<open>encode\<close>,
  \<open>poly_compress\<close> and \<open>poly_decompress\<close> is the template argument.
\<close>

record ('g, 'h, 'r) prims =
  sha3_256 :: "byte list \<Rightarrow> byte list"
  sha3_512 :: "byte list \<Rightarrow> byte list"
  shake128_hash :: "byte list \<Rightarrow> 'g"
  shake256_hash :: "byte list \<Rightarrow> 'h"
  shake256_read :: "'h \<Rightarrow> nat \<Rightarrow> byte list \<times> 'h"
  random_data :: "'r \<Rightarrow> nat \<Rightarrow> byte list \<times> 'r"
  parse :: "'g \<Rightarrow> ff_t list"
  cbd :: "nat \<Rightarrow> byte list \<Rightarrow> ff_t list"
  decode :: "nat \<Rightarrow> byte list \<Rightarrow> ff_t list"
  encode :: "nat \<Rightarrow> ff_t list \<Rightarrow> byte list"
  poly_compress :: "nat \<Rightarrow> ff_t list \<Rightarrow> ff_t list"
  poly_decompress :: "nat \<Rightarrow> ff_t list \<Rightarrow> ff_t list"
  ntt :: "ff_t list \<Rightarrow> ff_t list"
  intt :: "ff_t list \<Rightarrow> ff_t list"
  polymul :: "ff_t list \<Rightarrow> ff_t list \<Rightarrow> ff_t list"

subsection \<open>cpapke::encrypt\<close>

text \<open>
  The four buffers of the caller and every local array of \<^verbatim>\<open>encrypt\<close>. A local array
  is empty until its declaration is reached, where it is zero-initialised as in the source.
  The locals \<^verbatim>\<open>N\<close>, \<^verbatim>\<open>r\<close>, \<^verbatim>\<open>e1\<close>, \<^verbatim>\<open>e2\<close>, \<^verbatim>\<open>u\<close>, \<^verbatim>\<open>tmp\<close>, \<^verbatim>\<open>v\<close> and \<^verbatim>\<open>m\<close> carry the prefix
  \<open>loc_\<close>. The SHAKE objects live for one call each and are not part of the state.
\<close>

record enc_state =
  pubkey :: "byte list"
  msg :: "byte list"
  rcoin :: "byte list"
  enc :: "byte list"
  t_prime :: "ff_t list"
  xof_in :: "byte list"
  A_prime :: "ff_t list"
  loc_N :: byte
  prf_in :: "byte list"
  prf_out_eta1 :: "byte list"
  prf_out_eta2 :: "byte list"
  loc_r :: "ff_t list"
  loc_e1 :: "ff_t list"
  loc_e2 :: "ff_t list"
  loc_u :: "ff_t list"
  loc_tmp :: "ff_t list"
  loc_v :: "ff_t list"
  loc_m :: "ff_t list"

definition enc_entry :: "byte list \<Rightarrow> byte list \<Rightarrow> byte list \<Rightarrow> byte list \<Rightarrow> enc_state" where
  "enc_entry pk ms rc ct =
     \<lparr>pubkey = pk, msg = ms, rcoin = rc, enc = ct, t_prime = [], xof_in = [], A_prime = [],
      loc_N = 0, prf_in = [], prf_out_eta1 = [], prf_out_eta2 = [], loc_r = [], loc_e1 = [],
      loc_e2 = [], loc_u = [], loc_tmp = [], loc_v = [], loc_m = []\<rparr>"

text \<open>step 2 (lines 33-40)\<close>

definition step2_body :: "('g, 'h, 'r) prims \<Rightarrow> nat \<Rightarrow> enc_state \<Rightarrow> enc_state option" where
  "step2_body P i s = do {
     let toff = i * ntt_N;
     let pkoff = i * 12 * 32;
     bs \<leftarrow> read_at (pubkey s) pkoff (12 * 32);
     t \<leftarrow> write_at (t_prime s) toff (decode P 12 bs);
     Some (s\<lparr>t_prime := t\<rparr>)
   }"

definition encrypt_step2 :: "('g, 'h, 'r) prims \<Rightarrow> nat \<Rightarrow> enc_state \<Rightarrow> enc_state option" where
  "encrypt_step2 P k s =
     for_each [0..<k] (step2_body P) (s\<lparr>t_prime := replicate (k * ntt_N) 0\<rparr>)"

text \<open>steps 3 to 8 (lines 43-64)\<close>

definition matrix_body ::
  "('g, 'h, 'r) prims \<Rightarrow> nat \<Rightarrow> nat \<Rightarrow> nat \<Rightarrow> enc_state \<Rightarrow> enc_state option" where
  "matrix_body P k i j s = do {
     let off = (i * k + j) * ntt_N;
     x32 \<leftarrow> put_at (xof_in s) 32 (of_nat i);
     x33 \<leftarrow> put_at x32 33 (of_nat j);
     inp \<leftarrow> read_at x33 0 34;
     let hasher = shake128_hash P inp;
     a \<leftarrow> write_at (A_prime s) off (parse P hasher);
     Some (s\<lparr>xof_in := x33, A_prime := a\<rparr>)
   }"

definition encrypt_matrix :: "('g, 'h, 'r) prims \<Rightarrow> nat \<Rightarrow> enc_state \<Rightarrow> enc_state option" where
  "encrypt_matrix P k s = do {
     let pkoff = k * 12 * 32;
     rho \<leftarrow> ptr_add (pubkey s) pkoff;
     seed \<leftarrow> read_at rho 0 (34 - 2);
     x \<leftarrow> write_at (replicate 34 0) 0 seed;
     for_each [0..<k] (\<lambda>i. for_each [0..<k] (matrix_body P k i))
       (s\<lparr>xof_in := x, A_prime := replicate (k * k * ntt_N) 0\<rparr>)
   }"

text \<open>step 1 and steps 9 to 12 (lines 67-90)\<close>

definition sample_r_body ::
  "('g, 'h, 'r) prims \<Rightarrow> nat \<Rightarrow> nat \<Rightarrow> enc_state \<Rightarrow> enc_state option" where
  "sample_r_body P eta1 i s = do {
     let off = i * ntt_N;
     pin \<leftarrow> put_at (prf_in s) 32 (loc_N s);
     inp \<leftarrow> read_at pin 0 33;
     let hasher = shake256_hash P inp;
     pout \<leftarrow> write_at (prf_out_eta1 s) 0 (fst (shake256_read P hasher (64 * eta1)));
     bs \<leftarrow> read_at pout 0 (64 * eta1);
     rr \<leftarrow> write_at (loc_r s) off (cbd P eta1 bs);
     Some (s\<lparr>prf_in := pin, prf_out_eta1 := pout, loc_r := rr, loc_N := loc_N s + 1\<rparr>)
   }"

definition encrypt_sample_r ::
  "('g, 'h, 'r) prims \<Rightarrow> nat \<Rightarrow> nat \<Rightarrow> nat \<Rightarrow> enc_state \<Rightarrow> enc_state option" where
  "encrypt_sample_r P k eta1 eta2 s = do {
     coin \<leftarrow> read_at (rcoin s) 0 (33 - 1);
     pin \<leftarrow> write_at (replicate 33 0) 0 coin;
     for_each [0..<k] (sample_r_body P eta1)
       (s\<lparr>loc_N := 0, prf_in := pin, prf_out_eta1 := replicate (64 * eta1) 0,
          prf_out_eta2 := replicate (64 * eta2) 0, loc_r := replicate (k * ntt_N) 0\<rparr>)
   }"

text \<open>steps 13 to 16 (lines 93-107)\<close>

definition sample_e1_body ::
  "('g, 'h, 'r) prims \<Rightarrow> nat \<Rightarrow> nat \<Rightarrow> enc_state \<Rightarrow> enc_state option" where
  "sample_e1_body P eta2 i s = do {
     let off = i * ntt_N;
     pin \<leftarrow> put_at (prf_in s) 32 (loc_N s);
     inp \<leftarrow> read_at pin 0 33;
     let hasher = shake256_hash P inp;
     pout \<leftarrow> write_at (prf_out_eta2 s) 0 (fst (shake256_read P hasher (64 * eta2)));
     bs \<leftarrow> read_at pout 0 (64 * eta2);
     ee \<leftarrow> write_at (loc_e1 s) off (cbd P eta2 bs);
     Some (s\<lparr>prf_in := pin, prf_out_eta2 := pout, loc_e1 := ee, loc_N := loc_N s + 1\<rparr>)
   }"

definition encrypt_sample_e1 ::
  "('g, 'h, 'r) prims \<Rightarrow> nat \<Rightarrow> nat \<Rightarrow> enc_state \<Rightarrow> enc_state option" where
  "encrypt_sample_e1 P k eta2 s =
     for_each [0..<k] (sample_e1_body P eta2) (s\<lparr>loc_e1 := replicate (k * ntt_N) 0\<rparr>)"

text \<open>step 17 (lines 110-118)\<close>

definition encrypt_sample_e2 ::
  "('g, 'h, 'r) prims \<Rightarrow> nat \<Rightarrow> enc_state \<Rightarrow> enc_state option" where
  "encrypt_sample_e2 P eta2 s = do {
     pin \<leftarrow> put_at (prf_in s) 32 (loc_N s);
     inp \<leftarrow> read_at pin 0 33;
     let hasher = shake256_hash P inp;
     pout \<leftarrow> write_at (prf_out_eta2 s) 0 (fst (shake256_read P hasher (64 * eta2)));
     bs \<leftarrow> read_at pout 0 (64 * eta2);
     ee \<leftarrow> write_at (replicate ntt_N 0) 0 (cbd P eta2 bs);
     Some (s\<lparr>prf_in := pin, prf_out_eta2 := pout, loc_e2 := ee\<rparr>)
   }"

text \<open>step 18 (lines 121-124)\<close>

definition ntt_r_body :: "('g, 'h, 'r) prims \<Rightarrow> nat \<Rightarrow> enc_state \<Rightarrow> enc_state option" where
  "ntt_r_body P i s = do {
     let off = i * ntt_N;
     rr \<leftarrow> in_place (ntt P) (loc_r s) off;
     Some (s\<lparr>loc_r := rr\<rparr>)
   }"

definition encrypt_ntt_r :: "('g, 'h, 'r) prims \<Rightarrow> nat \<Rightarrow> enc_state \<Rightarrow> enc_state option" where
  "encrypt_ntt_r P k s = for_each [0..<k] (ntt_r_body P) s"

text \<open>step 19 (lines 127-152)\<close>

definition u_inner_body ::
  "('g, 'h, 'r) prims \<Rightarrow> nat \<Rightarrow> nat \<Rightarrow> nat \<Rightarrow> enc_state \<Rightarrow> enc_state option" where
  "u_inner_body P k i j s = do {
     let uoff = i * ntt_N;
     let aoff = (i * k + j) * ntt_N;
     let roff = j * ntt_N;
     a \<leftarrow> read_at (A_prime s) aoff ntt_N;
     b \<leftarrow> read_at (loc_r s) roff ntt_N;
     t \<leftarrow> write_at (loc_tmp s) 0 (polymul P a b);
     uu \<leftarrow> add_into (loc_u s) uoff t 0;
     Some (s\<lparr>loc_tmp := t, loc_u := uu\<rparr>)
   }"

definition u_outer_body ::
  "('g, 'h, 'r) prims \<Rightarrow> nat \<Rightarrow> nat \<Rightarrow> enc_state \<Rightarrow> enc_state option" where
  "u_outer_body P k i s = do {
     let uoff = i * ntt_N;
     let e1off = i * ntt_N;
     s1 \<leftarrow> for_each [0..<k] (u_inner_body P k i) s;
     u1 \<leftarrow> in_place (intt P) (loc_u s1) uoff;
     u2 \<leftarrow> add_into u1 uoff (loc_e1 s1) e1off;
     Some (s1\<lparr>loc_u := u2\<rparr>)
   }"

definition encrypt_u :: "('g, 'h, 'r) prims \<Rightarrow> nat \<Rightarrow> enc_state \<Rightarrow> enc_state option" where
  "encrypt_u P k s = do {
     uu \<leftarrow> write_at (replicate (k * ntt_N) 0) 0 (replicate (k * ntt_N) 0);
     for_each [0..<k] (u_outer_body P k) (s\<lparr>loc_u := uu, loc_tmp := replicate ntt_N 0\<rparr>)
   }"

text \<open>step 20 (lines 155-181)\<close>

definition v_body :: "('g, 'h, 'r) prims \<Rightarrow> nat \<Rightarrow> enc_state \<Rightarrow> enc_state option" where
  "v_body P i s = do {
     let toff = i * ntt_N;
     let roff = i * ntt_N;
     a \<leftarrow> read_at (t_prime s) toff ntt_N;
     b \<leftarrow> read_at (loc_r s) roff ntt_N;
     t \<leftarrow> write_at (loc_tmp s) 0 (polymul P a b);
     vv \<leftarrow> add_into (loc_v s) 0 t 0;
     Some (s\<lparr>loc_tmp := t, loc_v := vv\<rparr>)
   }"

definition encrypt_v :: "('g, 'h, 'r) prims \<Rightarrow> nat \<Rightarrow> enc_state \<Rightarrow> enc_state option" where
  "encrypt_v P k s = do {
     v0 \<leftarrow> write_at (replicate ntt_N 0) 0 (replicate ntt_N 0);
     s1 \<leftarrow> for_each [0..<k] (v_body P) (s\<lparr>loc_v := v0\<rparr>);
     v1 \<leftarrow> in_place (intt P) (loc_v s1) 0;
     v2 \<leftarrow> add_into v1 0 (loc_e2 s1) 0;
     bs \<leftarrow> read_at (msg s1) 0 32;
     m0 \<leftarrow> write_at (replicate ntt_N 0) 0 (decode P 1 bs);
     m1 \<leftarrow> in_place (poly_decompress P 1) m0 0;
     v3 \<leftarrow> add_into v2 0 m1 0;
     Some (s1\<lparr>loc_v := v3, loc_m := m1\<rparr>)
   }"

text \<open>step 21 (lines 184-190)\<close>

definition pack_u_body ::
  "('g, 'h, 'r) prims \<Rightarrow> nat \<Rightarrow> nat \<Rightarrow> enc_state \<Rightarrow> enc_state option" where
  "pack_u_body P du i s = do {
     let uoff = i * ntt_N;
     let encoff = i * du * 32;
     uu \<leftarrow> in_place (poly_compress P du) (loc_u s) uoff;
     p \<leftarrow> read_at uu uoff ntt_N;
     e \<leftarrow> write_at (enc s) encoff (encode P du p);
     Some (s\<lparr>loc_u := uu, enc := e\<rparr>)
   }"

definition encrypt_pack_u ::
  "('g, 'h, 'r) prims \<Rightarrow> nat \<Rightarrow> nat \<Rightarrow> enc_state \<Rightarrow> enc_state option" where
  "encrypt_pack_u P k du s = for_each [0..<k] (pack_u_body P du) s"

text \<open>step 22 (lines 193-196)\<close>

definition encrypt_pack_v ::
  "('g, 'h, 'r) prims \<Rightarrow> nat \<Rightarrow> nat \<Rightarrow> nat \<Rightarrow> enc_state \<Rightarrow> enc_state option" where
  "encrypt_pack_v P k du dv s = do {
     let encoff = k * du * 32;
     vv \<leftarrow> in_place (poly_compress P dv) (loc_v s) 0;
     p \<leftarrow> read_at vv 0 ntt_N;
     e \<leftarrow> write_at (enc s) encoff (encode P dv p);
     Some (s\<lparr>loc_v := vv, enc := e\<rparr>)
   }"

text \<open>
  The routine is the sequence of its steps: \<open>encrypt_sampled\<close> is the run up to line 118,
  where the noise has been sampled, \<open>encrypt_computed\<close> the run up to line 181, where \<open>u\<close>
  and \<open>v\<close> are complete, \<open>encrypt_from\<close> the whole body, and \<open>encrypt\<close> the routine
  called with its four pointer arguments.
\<close>

definition encrypt_sampled ::
  "('g, 'h, 'r) prims \<Rightarrow> nat \<Rightarrow> nat \<Rightarrow> nat \<Rightarrow> enc_state \<Rightarrow> enc_state option" where
  "encrypt_sampled P k eta1 eta2 s = do {
     s2 \<leftarrow> encrypt_step2 P k s;
     s8 \<leftarrow> encrypt_matrix P k s2;
     s12 \<leftarrow> encrypt_sample_r P k eta1 eta2 s8;
     s16 \<leftarrow> encrypt_sample_e1 P k eta2 s12;
     encrypt_sample_e2 P eta2 s16
   }"

definition encrypt_computed ::
  "('g, 'h, 'r) prims \<Rightarrow> nat \<Rightarrow> nat \<Rightarrow> nat \<Rightarrow> enc_state \<Rightarrow> enc_state option" where
  "encrypt_computed P k eta1 eta2 s = do {
     s17 \<leftarrow> encrypt_sampled P k eta1 eta2 s;
     s18 \<leftarrow> encrypt_ntt_r P k s17;
     s19 \<leftarrow> encrypt_u P k s18;
     encrypt_v P k s19
   }"

definition encrypt_from ::
  "('g, 'h, 'r) prims \<Rightarrow> nat \<Rightarrow> nat \<Rightarrow> nat \<Rightarrow> nat \<Rightarrow> nat \<Rightarrow> enc_state \<Rightarrow> enc_state option" where
  "encrypt_from P k eta1 eta2 du dv s = do {
     s20 \<leftarrow> encrypt_computed P k eta1 eta2 s;
     s21 \<leftarrow> encrypt_pack_u P k du s20;
     encrypt_pack_v P k du dv s21
   }"

definition encrypt ::
  "('g, 'h, 'r) prims \<Rightarrow> nat \<Rightarrow> nat \<Rightarrow> nat \<Rightarrow> nat \<Rightarrow> nat \<Rightarrow>
   byte list \<Rightarrow> byte list \<Rightarrow> byte list \<Rightarrow> byte list \<Rightarrow> enc_state option" where
  "encrypt P k eta1 eta2 du dv pk ms rc ct =
     encrypt_from P k eta1 eta2 du dv (enc_entry pk ms rc ct)"

subsection \<open>ccakem::encapsulate\<close>

text \<open>
  What \<^verbatim>\<open>encapsulate\<close> leaves behind: the returned SHAKE256 object, the two buffers of
  the caller, the four local arrays as they are when the routine returns, and the state
  of the random number generator. The call of \<^verbatim>\<open>encrypt\<close> receives \<^verbatim>\<open>g_in\<close> as its message
  pointer and \<^verbatim>\<open>g_out + 32\<close> as its coin pointer; the three \<^verbatim>\<open>const\<close> buffers cannot be
  written by it, the output buffer is taken back from its final state.
\<close>

record ('h, 'r) kem_state =
  kem_hasher :: 'h
  kem_pubkey :: "byte list"
  kem_cipher :: "byte list"
  kem_m :: "byte list"
  kem_g_in :: "byte list"
  kem_g_out :: "byte list"
  kem_kdf_in :: "byte list"
  kem_rng :: 'r

definition encapsulate ::
  "('g, 'h, 'r) prims \<Rightarrow> nat \<Rightarrow> nat \<Rightarrow> nat \<Rightarrow> nat \<Rightarrow> nat \<Rightarrow>
   byte list \<Rightarrow> byte list \<Rightarrow> 'r \<Rightarrow> ('h, 'r) kem_state option" where
  "encapsulate P k eta1 eta2 du dv pubkey0 cipher0 rng0 = do {
     let pklen = k * 12 * 32 + 32;
     let ctlen = k * du * 32 + dv * 32;
     let m0 = replicate 32 0;
     let g_in0 = replicate 64 0;
     let g_out0 = replicate 64 0;
     let kdf_in0 = replicate 64 0;
     let (rnd, rng1) = random_data P rng0 32;
     m \<leftarrow> write_at m0 0 rnd;
     m_in \<leftarrow> read_at m 0 32;
     g_in1 \<leftarrow> write_at g_in0 0 (sha3_256 P m_in);
     pk_in \<leftarrow> read_at pubkey0 0 pklen;
     g_in2 \<leftarrow> write_at g_in1 32 (sha3_256 P pk_in);
     g_in_all \<leftarrow> read_at g_in2 0 64;
     g_out \<leftarrow> write_at g_out0 0 (sha3_512 P g_in_all);
     coin \<leftarrow> ptr_add g_out 32;
     s \<leftarrow> encrypt P k eta1 eta2 du dv pubkey0 g_in2 coin cipher0;
     pre \<leftarrow> read_at g_out 0 32;
     kdf_in1 \<leftarrow> write_at kdf_in0 0 pre;
     c_in \<leftarrow> read_at (enc s) 0 ctlen;
     kdf_in2 \<leftarrow> write_at kdf_in1 32 (sha3_256 P c_in);
     kdf_all \<leftarrow> read_at kdf_in2 0 64;
     Some \<lparr>kem_hasher = shake256_hash P kdf_all, kem_pubkey = pubkey s, kem_cipher = enc s,
            kem_m = m, kem_g_in = g_in2, kem_g_out = g_out, kem_kdf_in = kdf_in2,
            kem_rng = rng1\<rparr>
   }"

subsection \<open>The size contracts of the absent routines\<close>

text \<open>
  Each absent routine reads and writes a fixed number of elements, given by its template
  argument: a hash writes 32 or 64 bytes, a read of \<open>n\<close> bytes writes \<open>n\<close> bytes,
  \<open>decode l\<close> reads \<open>32 * l\<close> bytes and writes a polynomial, \<open>encode l\<close> does the
  converse, \<open>cbd eta\<close> reads \<open>64 * eta\<close> bytes, and the polynomial routines keep the
  \<open>ntt_N\<close> coefficients.
\<close>

definition is_poly :: "ff_t list \<Rightarrow> bool" where
  "is_poly p = (length p = ntt_N)"

definition prims_ok :: "('g, 'h, 'r) prims \<Rightarrow> bool" where
  "prims_ok P =
     ((\<forall>x. length (sha3_256 P x) = 32) \<and>
      (\<forall>x. length (sha3_512 P x) = 64) \<and>
      (\<forall>h n. length (fst (shake256_read P h n)) = n) \<and>
      (\<forall>s n. length (fst (random_data P s n)) = n) \<and>
      (\<forall>g. is_poly (parse P g)) \<and>
      (\<forall>eta bs. length bs = 64 * eta \<longrightarrow> is_poly (cbd P eta bs)) \<and>
      (\<forall>l bs. length bs = 32 * l \<longrightarrow> is_poly (decode P l bs)) \<and>
      (\<forall>l p. is_poly p \<longrightarrow> length (encode P l p) = 32 * l) \<and>
      (\<forall>d p. is_poly p \<longrightarrow> is_poly (poly_compress P d p)) \<and>
      (\<forall>d p. is_poly p \<longrightarrow> is_poly (poly_decompress P d p)) \<and>
      (\<forall>p. is_poly p \<longrightarrow> is_poly (ntt P p)) \<and>
      (\<forall>p. is_poly p \<longrightarrow> is_poly (intt P p)) \<and>
      (\<forall>a b. is_poly a \<longrightarrow> is_poly b \<longrightarrow> is_poly (polymul P a b)))"

subsection \<open>The ciphertext as a function of the inputs\<close>

text \<open>
  The ciphertext of algorithm 5 on polynomials instead of windows of flat arrays: the sum
  of polynomials, the seed of a matrix entry, the PRF output, the noise polynomials, and
  \<open>u\<close>, \<open>v\<close> and the ciphertext built from them. These definitions are not part of the
  embedding; the embedding is proved equal to them below. \<open>xof_seed rho a b\<close> has \<open>a\<close> in
  byte 32 and \<open>b\<close> in byte 33, and the entry \<open>A_entry P rho i j\<close> is the one multiplied
  with \<open>r[j]\<close> in \<open>u[i]\<close>.
\<close>

definition blocks :: "(nat \<Rightarrow> 'a list) \<Rightarrow> nat \<Rightarrow> 'a list" where
  "blocks f n = concat (map f [0..<n])"

definition poly_zero :: "ff_t list" where
  "poly_zero = replicate ntt_N 0"

definition poly_add :: "ff_t list \<Rightarrow> ff_t list \<Rightarrow> ff_t list" where
  "poly_add a b = map2 ff_add a b"

definition poly_sum :: "ff_t list list \<Rightarrow> ff_t list" where
  "poly_sum ps = foldl poly_add poly_zero ps"

definition pk_rho :: "nat \<Rightarrow> byte list \<Rightarrow> byte list" where
  "pk_rho k pk = take 32 (drop (k * 12 * 32) pk)"

definition t_hat :: "('g, 'h, 'r) prims \<Rightarrow> byte list \<Rightarrow> nat \<Rightarrow> ff_t list" where
  "t_hat P pk i = decode P 12 (take (12 * 32) (drop (i * 12 * 32) pk))"

definition xof_seed :: "byte list \<Rightarrow> nat \<Rightarrow> nat \<Rightarrow> byte list" where
  "xof_seed rho a b = rho @ [of_nat a, of_nat b]"

definition A_entry :: "('g, 'h, 'r) prims \<Rightarrow> byte list \<Rightarrow> nat \<Rightarrow> nat \<Rightarrow> ff_t list" where
  "A_entry P rho a b = parse P (shake128_hash P (xof_seed rho a b))"

definition prf_bytes :: "('g, 'h, 'r) prims \<Rightarrow> byte list \<Rightarrow> byte \<Rightarrow> nat \<Rightarrow> byte list" where
  "prf_bytes P rc n len = fst (shake256_read P (shake256_hash P (rc @ [n])) len)"

definition noise :: "('g, 'h, 'r) prims \<Rightarrow> nat \<Rightarrow> byte list \<Rightarrow> nat \<Rightarrow> ff_t list" where
  "noise P eta rc n = cbd P eta (prf_bytes P rc (of_nat n) (64 * eta))"

definition r_hat :: "('g, 'h, 'r) prims \<Rightarrow> nat \<Rightarrow> byte list \<Rightarrow> nat \<Rightarrow> ff_t list" where
  "r_hat P eta1 rc i = ntt P (noise P eta1 rc i)"

definition u_poly ::
  "('g, 'h, 'r) prims \<Rightarrow> nat \<Rightarrow> nat \<Rightarrow> nat \<Rightarrow> byte list \<Rightarrow> byte list \<Rightarrow> nat \<Rightarrow> ff_t list" where
  "u_poly P k eta1 eta2 pk rc i =
     poly_add
       (intt P (poly_sum
          (map (\<lambda>j. polymul P (A_entry P (pk_rho k pk) i j) (r_hat P eta1 rc j)) [0..<k])))
       (noise P eta2 rc (k + i))"

definition v_poly ::
  "('g, 'h, 'r) prims \<Rightarrow> nat \<Rightarrow> nat \<Rightarrow> nat \<Rightarrow> byte list \<Rightarrow> byte list \<Rightarrow> byte list \<Rightarrow> ff_t list"
  where
  "v_poly P k eta1 eta2 pk ms rc =
     poly_add
       (poly_add
          (intt P (poly_sum (map (\<lambda>i. polymul P (t_hat P pk i) (r_hat P eta1 rc i)) [0..<k])))
          (noise P eta2 rc (2 * k)))
       (poly_decompress P 1 (decode P 1 ms))"

definition ciphertext ::
  "('g, 'h, 'r) prims \<Rightarrow> nat \<Rightarrow> nat \<Rightarrow> nat \<Rightarrow> nat \<Rightarrow> nat \<Rightarrow>
   byte list \<Rightarrow> byte list \<Rightarrow> byte list \<Rightarrow> byte list" where
  "ciphertext P k eta1 eta2 du dv pk ms rc =
     blocks (\<lambda>i. encode P du (poly_compress P du (u_poly P k eta1 eta2 pk rc i))) k @
     encode P dv (poly_compress P dv (v_poly P k eta1 eta2 pk ms rc))"

subsection \<open>The contents of the buffers of encrypt\<close>

text \<open>
  What every buffer holds when the noise has been sampled (line 118), when \<open>u\<close> and
  \<open>v\<close> are complete (line 181), and when the routine returns, in terms of the
  definitions above. \<open>s\<close> is the state on entry. These are the right-hand sides of the
  equations proved below for \<open>encrypt_sampled\<close>, \<open>encrypt_computed\<close> and \<open>encrypt_from\<close>.
\<close>

definition sampled_state ::
  "('g, 'h, 'r) prims \<Rightarrow> nat \<Rightarrow> nat \<Rightarrow> nat \<Rightarrow> enc_state \<Rightarrow> enc_state" where
  "sampled_state P k eta1 eta2 s =
     (let pk = pubkey s; rc = take 32 (rcoin s); rho = pk_rho k pk in
      s\<lparr>t_prime := blocks (t_hat P pk) k,
        xof_in := rho @ (if k = 0 then [0, 0] else [of_nat (k - 1), of_nat (k - 1)]),
        A_prime := blocks (\<lambda>p. A_entry P rho (p div k) (p mod k)) (k * k),
        loc_N := of_nat (2 * k),
        prf_in := rc @ [of_nat (2 * k)],
        prf_out_eta1 := (if k = 0 then replicate (64 * eta1) 0
                         else prf_bytes P rc (of_nat (k - 1)) (64 * eta1)),
        prf_out_eta2 := prf_bytes P rc (of_nat (2 * k)) (64 * eta2),
        loc_r := blocks (noise P eta1 rc) k,
        loc_e1 := blocks (\<lambda>i. noise P eta2 rc (k + i)) k,
        loc_e2 := noise P eta2 rc (2 * k)\<rparr>)"

definition computed_state ::
  "('g, 'h, 'r) prims \<Rightarrow> nat \<Rightarrow> nat \<Rightarrow> nat \<Rightarrow> enc_state \<Rightarrow> enc_state" where
  "computed_state P k eta1 eta2 s =
     (let pk = pubkey s; rc = take 32 (rcoin s); ms = take 32 (msg s) in
      (sampled_state P k eta1 eta2 s)
       \<lparr>loc_r := blocks (r_hat P eta1 rc) k,
        loc_u := blocks (u_poly P k eta1 eta2 pk rc) k,
        loc_tmp := (if k = 0 then poly_zero
                    else polymul P (t_hat P pk (k - 1)) (r_hat P eta1 rc (k - 1))),
        loc_v := v_poly P k eta1 eta2 pk ms rc,
        loc_m := poly_decompress P 1 (decode P 1 ms)\<rparr>)"

definition final_state ::
  "('g, 'h, 'r) prims \<Rightarrow> nat \<Rightarrow> nat \<Rightarrow> nat \<Rightarrow> nat \<Rightarrow> nat \<Rightarrow> enc_state \<Rightarrow> enc_state" where
  "final_state P k eta1 eta2 du dv s =
     (let pk = pubkey s; rc = take 32 (rcoin s); ms = take 32 (msg s) in
      (computed_state P k eta1 eta2 s)
       \<lparr>loc_u := blocks (\<lambda>i. poly_compress P du (u_poly P k eta1 eta2 pk rc i)) k,
        loc_v := poly_compress P dv (v_poly P k eta1 eta2 pk ms rc),
        enc := ciphertext P k eta1 eta2 du dv pk ms rc @
               drop (k * du * 32 + dv * 32) (enc s)\<rparr>)"

text \<open>The polynomial in the window \<^verbatim>\<open>buf + i * ntt::N\<close> of a flat array.\<close>

definition poly_at :: "nat \<Rightarrow> ff_t list \<Rightarrow> ff_t list" where
  "poly_at i buf = take ntt_N (drop (i * ntt_N) buf)"

subsection \<open>The result of encapsulate\<close>

text \<open>
  What \<^verbatim>\<open>encapsulate\<close> returns and leaves in its buffers, in terms of the hash adapters
  and of \<open>ciphertext\<close>: the right-hand side of the equation proved below for
  \<open>encapsulate\<close>.
\<close>

definition kem_result ::
  "('g, 'h, 'r) prims \<Rightarrow> nat \<Rightarrow> nat \<Rightarrow> nat \<Rightarrow> nat \<Rightarrow> nat \<Rightarrow>
   byte list \<Rightarrow> byte list \<Rightarrow> 'r \<Rightarrow> ('h, 'r) kem_state" where
  "kem_result P k eta1 eta2 du dv pk c0 rng =
     (let m = fst (random_data P rng 32);
          h_m = sha3_256 P m;
          h_pk = sha3_256 P (take (k * 12 * 32 + 32) pk);
          g = sha3_512 P (h_m @ h_pk);
          c = ciphertext P k eta1 eta2 du dv pk h_m (drop 32 g)
      in \<lparr>kem_hasher = shake256_hash P (take 32 g @ sha3_256 P c),
          kem_pubkey = pk,
          kem_cipher = c @ drop (k * du * 32 + dv * 32) c0,
          kem_m = m,
          kem_g_in = h_m @ h_pk,
          kem_g_out = g,
          kem_kdf_in = take 32 g @ sha3_256 P c,
          kem_rng = snd (random_data P rng 32)\<rparr>)"

subsection \<open>An instance of the absent routines\<close>

text \<open>
  A small instance that satisfies the size contracts, on which the two routines can be run
  on concrete inputs. A hash object is the byte string it has absorbed, the generator
  state is a byte whose low four bits are returned \<open>n\<close> times and which is then
  incremented, and every polynomial
  routine returns a constant polynomial that depends on one byte of its input, so that
  the flow of the data through the buffers stays visible in the result.
\<close>

definition first_byte :: "byte list \<Rightarrow> byte" where
  "first_byte bs = (case bs of [] \<Rightarrow> 0 | b # _ \<Rightarrow> b)"

definition byte_at :: "byte list \<Rightarrow> nat \<Rightarrow> byte" where
  "byte_at bs i = (if i < length bs then bs ! i else 0)"

definition first_coeff :: "ff_t list \<Rightarrow> byte" where
  "first_coeff p = (case p of [] \<Rightarrow> 0 | c # _ \<Rightarrow> ucast c)"

definition const_poly :: "byte \<Rightarrow> ff_t list" where
  "const_poly b = replicate ntt_N (ucast b)"

definition demo_prims :: "(byte list, byte list, byte) prims" where
  "demo_prims =
     \<lparr>sha3_256 = (\<lambda>x. replicate 32 (first_byte x + 1)),
      sha3_512 = (\<lambda>x. replicate 64 (first_byte x + 2)),
      shake128_hash = (\<lambda>x. x),
      shake256_hash = (\<lambda>x. x),
      shake256_read = (\<lambda>h n. (replicate n (byte_at h 32), h)),
      random_data = (\<lambda>s n. (replicate n (s mod 16), s + 1)),
      parse = (\<lambda>g. const_poly (byte_at g 32)),
      cbd = (\<lambda>eta bs. const_poly (first_byte bs)),
      decode = (\<lambda>l bs. const_poly (first_byte bs)),
      encode = (\<lambda>l p. replicate (32 * l) (first_coeff p)),
      poly_compress = (\<lambda>d p. p),
      poly_decompress = (\<lambda>d p. p),
      ntt = (\<lambda>p. p),
      intt = (\<lambda>p. p),
      polymul = (\<lambda>a b. replicate ntt_N 0)\<rparr>"

text \<open>Kyber512 sized inputs: k = 2, eta1 = 3, eta2 = 2, du = 10, dv = 4.\<close>

definition demo_pk :: "byte list" where
  "demo_pk = replicate 800 0"

definition demo_ms :: "byte list" where
  "demo_ms = replicate 32 1"

definition demo_rc :: "byte list" where
  "demo_rc = replicate 32 2"

definition demo_ct :: "byte list" where
  "demo_ct = replicate 768 0"

section \<open>The embedding in closed form\<close>

subsection \<open>Loops and buffer accesses\<close>

lemma for_each_append:
  "for_each (xs @ ys) body s = Option.bind (for_each xs body s) (for_each ys body)"
proof (induction xs arbitrary: s)
  case Nil
  show ?case by simp
next
  case (Cons i xs)
  show ?case by (cases "body i s") (simp_all add: Cons.IH)
qed

lemma for_each_single: "for_each [n] body = body n"
proof
  fix s show "for_each [n] body s = body n s"
    by (cases "body n s") simp_all
qed

lemma for_each_upt_Suc:
  "for_each [0..<Suc n] body s = Option.bind (for_each [0..<n] body s) (body n)"
  by (simp only: upt_Suc_append [OF le0] for_each_append for_each_single)

lemma read_at_mid:
  "length A = off \<Longrightarrow> length x = n \<Longrightarrow> read_at (A @ x @ B) off n = Some x"
  by (simp add: read_at_def)

lemma write_at_mid:
  "length A = off \<Longrightarrow> length y = length x \<Longrightarrow> write_at (A @ x @ B) off y = Some (A @ y @ B)"
  by (simp add: write_at_def)

lemma read_at_all: "length x = n \<Longrightarrow> read_at x 0 n = Some x"
  by (simp add: read_at_def)

lemma write_at_all: "length y = length x \<Longrightarrow> write_at x 0 y = Some y"
  by (simp add: write_at_def)

lemma read_at_take: "off + n \<le> length buf \<Longrightarrow> read_at buf off n = Some (take n (drop off buf))"
  by (simp add: read_at_def)

subsection \<open>Arrays of polynomials\<close>

lemma blocks_0: "blocks f 0 = []"
  by (simp add: blocks_def)

lemma blocks_Suc: "blocks f (Suc n) = blocks f n @ f n"
  by (simp add: blocks_def)

lemma length_blocks: "\<forall>i<n. length (f i) = m \<Longrightarrow> length (blocks f n) = n * m"
  by (induction n) (simp_all add: blocks_0 blocks_Suc)

lemma replicate_blocks: "replicate (k * m) x = blocks (\<lambda>_. replicate m x) k"
proof (induction k)
  case 0
  show ?case by (simp add: blocks_0)
next
  case (Suc k)
  have "replicate (Suc k * m) x = replicate (k * m) x @ replicate m x"
    by (simp add: replicate_add [symmetric] add.commute)
  then show ?case by (simp add: blocks_Suc Suc.IH)
qed

lemma in_place_mid:
  "length A = off \<Longrightarrow> length x = ntt_N \<Longrightarrow> length (f x) = ntt_N \<Longrightarrow>
   in_place f (A @ x @ B) off = Some (A @ f x @ B)"
  by (simp add: in_place_def read_at_mid write_at_mid)

lemma add_loop:
  "n \<le> ntt_N \<Longrightarrow> doff + ntt_N \<le> length dst \<Longrightarrow> soff + ntt_N \<le> length src \<Longrightarrow>
   for_each [0..<n] (\<lambda>l d. do {
       a \<leftarrow> get_at d (doff + l);
       b \<leftarrow> get_at src (soff + l);
       put_at d (doff + l) (ff_add a b)
     }) dst =
   Some (map (\<lambda>idx. if doff \<le> idx \<and> idx < doff + n
                     then ff_add (dst ! idx) (src ! (soff + (idx - doff))) else dst ! idx)
             [0..<length dst])"
proof (induction n)
  case 0
  show ?case by (rule sym, simp, rule nth_equalityI) auto
next
  case (Suc n)
  then show ?case
    apply (simp only: for_each_upt_Suc)
    apply (simp add: get_at_def put_at_def)
    apply (rule nth_equalityI)
     apply simp
    apply (auto simp: nth_list_update)
    done
qed

lemma add_into_mid:
  assumes "length A = doff" "length x = ntt_N" "soff + ntt_N \<le> length src"
  shows "add_into (A @ x @ B) doff src soff =
         Some (A @ poly_add x (take ntt_N (drop soff src)) @ B)"
proof -
  have "add_into (A @ x @ B) doff src soff =
     Some (map (\<lambda>idx. if doff \<le> idx \<and> idx < doff + ntt_N
                     then ff_add ((A @ x @ B) ! idx) (src ! (soff + (idx - doff))) else (A @ x @ B) ! idx)
             [0..<length (A @ x @ B)])"
    unfolding add_into_def using assms by (intro add_loop) auto
  moreover have "map (\<lambda>idx. if doff \<le> idx \<and> idx < doff + ntt_N
                     then ff_add ((A @ x @ B) ! idx) (src ! (soff + (idx - doff))) else (A @ x @ B) ! idx)
             [0..<length (A @ x @ B)] = A @ poly_add x (take ntt_N (drop soff src)) @ B"
    using assms
    apply (intro nth_equalityI)
     apply (simp add: poly_add_def)
    apply (auto simp: nth_append poly_add_def)
    done
  ultimately show ?thesis by simp
qed

lemma add_into_all:
  "length x = ntt_N \<Longrightarrow> soff + ntt_N \<le> length src \<Longrightarrow>
   add_into x 0 src soff = Some (poly_add x (take ntt_N (drop soff src)))"
  using add_into_mid [of "[]" 0 x soff src "[]"] by simp

lemma in_place_all:
  "length x = ntt_N \<Longrightarrow> length (f x) = ntt_N \<Longrightarrow> in_place f x 0 = Some (f x)"
  using in_place_mid [of "[]" 0 x f "[]"] by simp

lemma length_poly_add: "length a = n \<Longrightarrow> length b = n \<Longrightarrow> length (poly_add a b) = n"
  by (simp add: poly_add_def)

lemma blocks_split:
  "i < k \<Longrightarrow> blocks h k = blocks h i @ h i @ concat (map h [Suc i..<k])"
proof -
  assume "i < k"
  then have "[0..<k] = [0..<i] @ i # [Suc i..<k]"
    using upt_add_eq_append [of 0 i "k - i"] by (simp add: upt_conv_Cons)
  then show ?thesis by (simp add: blocks_def)
qed

lemma blocks_upd_split:
  "i < k \<Longrightarrow> blocks (h(i := y)) k = blocks h i @ y @ concat (map h [Suc i..<k])"
proof -
  assume "i < k"
  have "blocks (h(i := y)) i = blocks h i"
    unfolding blocks_def by (intro arg_cong [where f = concat] map_cong) auto
  moreover have "concat (map (h(i := y)) [Suc i..<k]) = concat (map h [Suc i..<k])"
    by (intro arg_cong [where f = concat] map_cong) auto
  ultimately show ?thesis using blocks_split [OF \<open>i < k\<close>, of "h(i := y)"] by simp
qed

lemma blocks_cong: "(\<And>i. i < k \<Longrightarrow> f i = g i) \<Longrightarrow> blocks f k = blocks g k"
  unfolding blocks_def by (intro arg_cong [where f = concat] map_cong) auto

lemma read_blocks:
  assumes "\<forall>i<k. length (h i) = m" "i < k"
  shows "read_at (blocks h k) (i * m) m = Some (h i)"
proof -
  have "length (blocks h i) = i * m"
    using assms by (intro length_blocks) simp
  then show ?thesis
    using assms by (simp add: blocks_split [OF \<open>i < k\<close>] read_at_mid)
qed

lemma write_blocks:
  assumes "\<forall>i<k. length (h i) = m" "i < k" "length y = m"
  shows "write_at (blocks h k) (i * m) y = Some (blocks (h(i := y)) k)"
proof -
  have "length (blocks h i) = i * m"
    using assms by (intro length_blocks) simp
  then show ?thesis
    using assms
    by (subst blocks_upd_split, simp, subst blocks_split [of i k h], simp)
       (simp add: write_at_mid)
qed

lemma in_place_blocks:
  assumes "\<forall>i<k. length (h i) = ntt_N" "i < k" "length (f (h i)) = ntt_N"
  shows "in_place f (blocks h k) (i * ntt_N) = Some (blocks (h(i := f (h i))) k)"
  using assms by (simp add: in_place_def read_blocks write_blocks)

lemma add_into_blocks:
  assumes "\<forall>i<k. length (h i) = ntt_N" "i < k" "soff + ntt_N \<le> length src"
  shows "add_into (blocks h k) (i * ntt_N) src soff =
         Some (blocks (h(i := poly_add (h i) (take ntt_N (drop soff src)))) k)"
proof -
  have "length (blocks h i) = i * ntt_N"
    using assms by (intro length_blocks) simp
  then show ?thesis
    using assms
    by (subst blocks_upd_split, simp, subst blocks_split [of i k h], simp)
       (simp add: add_into_mid)
qed

lemma write_at_app:
  "length A = off \<Longrightarrow> length y \<le> length R \<Longrightarrow>
   write_at (A @ R) off y = Some (A @ y @ drop (length y) R)"
  by (simp add: write_at_def)

subsection \<open>Size contracts\<close>

lemma prims_okD:
  assumes "prims_ok P"
  shows "length (sha3_256 P x) = 32" "length (sha3_512 P x) = 64"
    "length (fst (shake256_read P h n)) = n" "length (fst (random_data P s n)) = n"
    "length (parse P g) = ntt_N"
    "length bs = 64 * eta \<Longrightarrow> length (cbd P eta bs) = ntt_N"
    "length bs = 32 * l \<Longrightarrow> length (decode P l bs) = ntt_N"
    "length p = ntt_N \<Longrightarrow> length (encode P l p) = 32 * l"
    "length p = ntt_N \<Longrightarrow> length (poly_compress P d p) = ntt_N"
    "length p = ntt_N \<Longrightarrow> length (poly_decompress P d p) = ntt_N"
    "length p = ntt_N \<Longrightarrow> length (ntt P p) = ntt_N"
    "length p = ntt_N \<Longrightarrow> length (intt P p) = ntt_N"
    "length a = ntt_N \<Longrightarrow> length b = ntt_N \<Longrightarrow> length (polymul P a b) = ntt_N"
  using assms by (simp_all add: prims_ok_def is_poly_def)

subsection \<open>Step 2: decoding the public key\<close>

lemma length_poly_zero: "length poly_zero = ntt_N"
  by (simp add: poly_zero_def)

lemma length_t_hat:
  "prims_ok P \<Longrightarrow> i < k \<Longrightarrow> k * 384 \<le> length pk \<Longrightarrow> length (t_hat P pk i) = ntt_N"
  by (simp add: t_hat_def prims_okD)

lemma step2_loop:
  assumes ok: "prims_ok P" and len: "k * 384 \<le> length (pubkey s)"
  shows "n \<le> k \<Longrightarrow>
    for_each [0..<n] (step2_body P) (s\<lparr>t_prime := replicate (k * ntt_N) 0\<rparr>) =
    Some (s\<lparr>t_prime := blocks (\<lambda>i. if i < n then t_hat P (pubkey s) i else poly_zero) k\<rparr>)"
proof (induction n)
  case 0
  show ?case by (simp add: replicate_blocks poly_zero_def)
next
  case (Suc n)
  let ?h = "\<lambda>i. if i < n then t_hat P (pubkey s) i else poly_zero"
  have L: "\<forall>i<k. length (?h i) = ntt_N"
    using ok len by (simp add: length_t_hat length_poly_zero)
  have W: "\<And>y. length y = ntt_N \<Longrightarrow>
             write_at (blocks ?h k) (n * ntt_N) y = Some (blocks (?h(n := y)) k)"
    using Suc.prems by (intro write_blocks [OF L]) simp_all
  have B: "step2_body P n (s\<lparr>t_prime := blocks ?h k\<rparr>) =
           Some (s\<lparr>t_prime := blocks (?h(n := t_hat P (pubkey s) n)) k\<rparr>)"
    using Suc.prems len ok
    by (simp add: step2_body_def read_at_take W prims_okD t_hat_def)
  have U: "?h(n := t_hat P (pubkey s) n) =
           (\<lambda>i. if i < Suc n then t_hat P (pubkey s) i else poly_zero)"
    by (auto simp: fun_eq_iff less_Suc_eq)
  show ?case
    using Suc.prems by (simp add: for_each_upt_Suc Suc.IH B U del: upt_Suc)
qed

lemma encrypt_step2_eq:
  assumes "prims_ok P" "k * 384 \<le> length (pubkey s)"
  shows "encrypt_step2 P k s = Some (s\<lparr>t_prime := blocks (t_hat P (pubkey s)) k\<rparr>)"
proof -
  have "blocks (\<lambda>i. if i < k then t_hat P (pubkey s) i else poly_zero) k = blocks (t_hat P (pubkey s)) k"
    by (rule blocks_cong) simp
  then show ?thesis
    unfolding encrypt_step2_def using step2_loop [OF assms, of k] by simp
qed

subsection \<open>Steps 3 to 8: the matrix\<close>

lemma idx_lt: "i < k \<Longrightarrow> j < k \<Longrightarrow> i * k + j < k * (k::nat)"
proof -
  assume a: "i < k" "j < k"
  then have "i * k + j < Suc i * k" by simp
  also have "\<dots> \<le> k * k" using a by (intro mult_le_mono1) simp
  finally show ?thesis .
qed

lemma length_xof_seed: "length rho = 32 \<Longrightarrow> length (xof_seed rho a b) = 34"
  by (simp add: xof_seed_def)

lemma matrix_inner:
  assumes ok: "prims_ok P" and rho: "length rho = 32" and i: "i < k"
  shows "n \<le> k \<Longrightarrow>
    for_each [0..<n] (matrix_body P k i)
      (s\<lparr>xof_in := rho @ [a, b],
         A_prime := blocks (\<lambda>p. if p < i * k then A_entry P rho (p div k) (p mod k) else poly_zero) (k * k)\<rparr>) =
    Some (s\<lparr>xof_in := rho @ (if n = 0 then [a, b] else [of_nat i, of_nat (n - 1)]),
            A_prime := blocks (\<lambda>p. if p < i * k + n then A_entry P rho (p div k) (p mod k) else poly_zero) (k * k)\<rparr>)"
proof (induction n)
  case 0
  show ?case by simp
next
  case (Suc n)
  let ?h = "\<lambda>p. if p < i * k + n then A_entry P rho (p div k) (p mod k) else poly_zero"
  have L: "\<forall>p<k * k. length (?h p) = ntt_N"
    using ok by (simp add: A_entry_def prims_okD length_poly_zero)
  have lt: "i * k + n < k * k"
    using i Suc.prems by (intro idx_lt) simp_all
  have W: "\<And>y. length y = ntt_N \<Longrightarrow>
             write_at (blocks ?h (k * k)) ((i * k + n) * ntt_N) y = Some (blocks (?h(i * k + n := y)) (k * k))"
    using lt by (intro write_blocks [OF L]) simp_all
  have X: "\<And>c d. ((rho @ [c, d])[32 := of_nat i])[33 := of_nat n] = xof_seed rho i n"
    using rho by (simp add: xof_seed_def list_update_append)
  have B: "\<And>c d. matrix_body P k i n (s\<lparr>xof_in := rho @ [c, d], A_prime := blocks ?h (k * k)\<rparr>) =
           Some (s\<lparr>xof_in := xof_seed rho i n,
                   A_prime := blocks (?h(i * k + n := A_entry P rho i n)) (k * k)\<rparr>)"
    using rho ok
    by (simp add: matrix_body_def put_at_def X read_at_all length_xof_seed
          W prims_okD A_entry_def)
  have U: "?h(i * k + n := A_entry P rho i n) =
           (\<lambda>p. if p < i * k + Suc n then A_entry P rho (p div k) (p mod k) else poly_zero)"
    using Suc.prems by (auto simp: fun_eq_iff less_Suc_eq)
  define c where "c = (if n = 0 then a else of_nat i)"
  define d where "d = (if n = 0 then b else of_nat (n - 1))"
  have IH: "for_each [0..<n] (matrix_body P k i)
      (s\<lparr>xof_in := rho @ [a, b],
         A_prime := blocks (\<lambda>p. if p < i * k then A_entry P rho (p div k) (p mod k) else poly_zero) (k * k)\<rparr>) =
      Some (s\<lparr>xof_in := rho @ [c, d], A_prime := blocks ?h (k * k)\<rparr>)"
    using Suc.IH Suc.prems by (simp add: c_def d_def)
  show ?case
    by (simp only: for_each_upt_Suc IH B U Option.bind.bind_lunit)
       (simp add: xof_seed_def)
qed

lemma matrix_outer:
  assumes ok: "prims_ok P" and rho: "length rho = 32"
  shows "m \<le> k \<Longrightarrow>
    for_each [0..<m] (\<lambda>i. for_each [0..<k] (matrix_body P k i))
      (s\<lparr>xof_in := rho @ [0, 0], A_prime := replicate (k * k * ntt_N) 0\<rparr>) =
    Some (s\<lparr>xof_in := rho @ (if m = 0 then [0, 0] else [of_nat (m - 1), of_nat (k - 1)]),
            A_prime := blocks (\<lambda>p. if p < m * k then A_entry P rho (p div k) (p mod k) else poly_zero) (k * k)\<rparr>)"
proof (induction m)
  case 0
  show ?case by (simp add: replicate_blocks poly_zero_def)
next
  case (Suc m)
  define c :: byte where "c = (if m = 0 then 0 else of_nat (m - 1))"
  define d :: byte where "d = (if m = 0 then 0 else of_nat (k - 1))"
  have IH: "for_each [0..<m] (\<lambda>i. for_each [0..<k] (matrix_body P k i))
      (s\<lparr>xof_in := rho @ [0, 0], A_prime := replicate (k * k * ntt_N) 0\<rparr>) =
      Some (s\<lparr>xof_in := rho @ [c, d],
              A_prime := blocks (\<lambda>p. if p < m * k then A_entry P rho (p div k) (p mod k) else poly_zero) (k * k)\<rparr>)"
    using Suc.IH Suc.prems by (simp add: c_def d_def)
  have I: "for_each [0..<k] (matrix_body P k m)
      (s\<lparr>xof_in := rho @ [c, d],
         A_prime := blocks (\<lambda>p. if p < m * k then A_entry P rho (p div k) (p mod k) else poly_zero) (k * k)\<rparr>) =
      Some (s\<lparr>xof_in := rho @ [of_nat m, of_nat (k - 1)],
              A_prime := blocks (\<lambda>p. if p < Suc m * k then A_entry P rho (p div k) (p mod k) else poly_zero) (k * k)\<rparr>)"
    using matrix_inner [OF ok rho, where i = m and n = k and k = k and s = s and a = c and b = d]
      Suc.prems
    by (simp add: add.commute)
  show ?case
    by (simp only: for_each_upt_Suc IH I Option.bind.bind_lunit) simp
qed

lemma write_seed:
  "length seed = 32 \<Longrightarrow> write_at (replicate 34 (0::byte)) 0 seed = Some (seed @ [0, 0])"
  by (simp add: write_at_def numeral_2_eq_2)

lemma length_pk_rho: "k * 384 + 32 \<le> length pk \<Longrightarrow> length (pk_rho k pk) = 32"
  by (simp add: pk_rho_def)

lemma encrypt_matrix_eq:
  assumes ok: "prims_ok P" and len: "k * 384 + 32 \<le> length (pubkey s)"
  shows "encrypt_matrix P k s =
    Some (s\<lparr>xof_in := pk_rho k (pubkey s) @ (if k = 0 then [0, 0] else [of_nat (k - 1), of_nat (k - 1)]),
            A_prime := blocks (\<lambda>p. A_entry P (pk_rho k (pubkey s)) (p div k) (p mod k)) (k * k)\<rparr>)"
proof -
  let ?rho = "pk_rho k (pubkey s)"
  have rho: "length ?rho = 32" using len by (rule length_pk_rho)
  have C: "blocks (\<lambda>p. if p < k * k then A_entry P ?rho (p div k) (p mod k) else poly_zero) (k * k) =
           blocks (\<lambda>p. A_entry P ?rho (p div k) (p mod k)) (k * k)"
    by (rule blocks_cong) simp
  have "encrypt_matrix P k s =
        for_each [0..<k] (\<lambda>i. for_each [0..<k] (matrix_body P k i))
          (s\<lparr>xof_in := ?rho @ [0, 0], A_prime := replicate (k * k * ntt_N) 0\<rparr>)"
    using len rho
    by (simp add: encrypt_matrix_def Let_def ptr_add_def read_at_def write_seed pk_rho_def)
  then show ?thesis
    using matrix_outer [OF ok rho, of k k s] by (simp add: C)
qed

subsection \<open>Steps 9 to 17: the noise\<close>

lemma put_last: "length rc = 32 \<Longrightarrow> put_at (rc @ [x]) 32 y = Some (rc @ [y])"
  by (simp add: put_at_def list_update_append)

lemma length_prf_bytes: "prims_ok P \<Longrightarrow> length (prf_bytes P rc c len) = len"
  by (simp add: prf_bytes_def prims_okD)

lemma sample_r_body_eq:
  assumes ok: "prims_ok P" and rc: "length rc = 32" and po: "length po = 64 * eta1"
    and h: "\<forall>i<k. length (h i) = ntt_N" and n: "n < k"
  shows "sample_r_body P eta1 n
           (s\<lparr>loc_N := c, prf_in := rc @ [x], prf_out_eta1 := po, loc_r := blocks h k\<rparr>) =
         Some (s\<lparr>loc_N := c + 1, prf_in := rc @ [c],
                 prf_out_eta1 := prf_bytes P rc c (64 * eta1),
                 loc_r := blocks (h(n := cbd P eta1 (prf_bytes P rc c (64 * eta1)))) k\<rparr>)"
proof -
  have W: "\<And>y. length y = ntt_N \<Longrightarrow>
             write_at (blocks h k) (n * ntt_N) y = Some (blocks (h(n := y)) k)"
    using n by (intro write_blocks [OF h]) simp_all
  have F: "fst (shake256_read P (shake256_hash P (rc @ [c])) (64 * eta1)) =
           prf_bytes P rc c (64 * eta1)"
    by (simp add: prf_bytes_def)
  show ?thesis
    using ok rc po
    by (simp add: sample_r_body_def Let_def put_last read_at_all F write_at_all
          length_prf_bytes W prims_okD)
qed

lemma sample_r_loop:
  assumes ok: "prims_ok P" and rc: "length rc = 32" and po: "length po = 64 * eta1"
  shows "n \<le> k \<Longrightarrow>
    for_each [0..<n] (sample_r_body P eta1)
      (s\<lparr>loc_N := 0, prf_in := rc @ [0], prf_out_eta1 := po, loc_r := replicate (k * ntt_N) 0\<rparr>) =
    Some (s\<lparr>loc_N := of_nat n,
            prf_in := rc @ [if n = 0 then 0 else of_nat (n - 1)],
            prf_out_eta1 := (if n = 0 then po else prf_bytes P rc (of_nat (n - 1)) (64 * eta1)),
            loc_r := blocks (\<lambda>i. if i < n then noise P eta1 rc i else poly_zero) k\<rparr>)"
proof (induction n)
  case 0
  show ?case by (simp add: replicate_blocks poly_zero_def)
next
  case (Suc n)
  let ?h = "\<lambda>i. if i < n then noise P eta1 rc i else poly_zero"
  define x :: byte where "x = (if n = 0 then 0 else of_nat (n - 1))"
  define po' where "po' = (if n = 0 then po else prf_bytes P rc (of_nat (n - 1)) (64 * eta1))"
  have po': "length po' = 64 * eta1"
    using ok po by (simp add: po'_def length_prf_bytes)
  have L: "\<forall>i<k. length (?h i) = ntt_N"
    using ok by (simp add: noise_def prims_okD length_prf_bytes length_poly_zero)
  have IH: "for_each [0..<n] (sample_r_body P eta1)
      (s\<lparr>loc_N := 0, prf_in := rc @ [0], prf_out_eta1 := po, loc_r := replicate (k * ntt_N) 0\<rparr>) =
      Some (s\<lparr>loc_N := of_nat n, prf_in := rc @ [x], prf_out_eta1 := po', loc_r := blocks ?h k\<rparr>)"
    using Suc.IH Suc.prems by (simp add: x_def po'_def)
  have U: "?h(n := cbd P eta1 (prf_bytes P rc (of_nat n) (64 * eta1))) =
           (\<lambda>i. if i < Suc n then noise P eta1 rc i else poly_zero)"
    by (auto simp: fun_eq_iff less_Suc_eq noise_def)
  have B: "sample_r_body P eta1 n
      (s\<lparr>loc_N := of_nat n, prf_in := rc @ [x], prf_out_eta1 := po', loc_r := blocks ?h k\<rparr>) =
      Some (s\<lparr>loc_N := of_nat n + 1, prf_in := rc @ [of_nat n],
              prf_out_eta1 := prf_bytes P rc (of_nat n) (64 * eta1),
              loc_r := blocks (\<lambda>i. if i < Suc n then noise P eta1 rc i else poly_zero) k\<rparr>)"
    using sample_r_body_eq [OF ok rc po' L, where n = n] Suc.prems
    by (simp add: U)
  show ?case
    by (simp only: for_each_upt_Suc IH B Option.bind.bind_lunit) simp
qed

lemma write_coin:
  "length coin = 32 \<Longrightarrow> write_at (replicate 33 (0::byte)) 0 coin = Some (coin @ [0])"
  by (simp add: write_at_def)

lemma encrypt_sample_r_eq:
  assumes ok: "prims_ok P" and len: "32 \<le> length (rcoin s)"
  shows "encrypt_sample_r P k eta1 eta2 s =
    Some (s\<lparr>loc_N := of_nat k,
            prf_in := take 32 (rcoin s) @ [if k = 0 then 0 else of_nat (k - 1)],
            prf_out_eta1 := (if k = 0 then replicate (64 * eta1) 0
                             else prf_bytes P (take 32 (rcoin s)) (of_nat (k - 1)) (64 * eta1)),
            prf_out_eta2 := replicate (64 * eta2) 0,
            loc_r := blocks (noise P eta1 (take 32 (rcoin s))) k\<rparr>)"
proof -
  let ?rc = "take 32 (rcoin s)"
  have rc: "length ?rc = 32" using len by simp
  have C: "blocks (\<lambda>i. if i < k then noise P eta1 ?rc i else poly_zero) k = blocks (noise P eta1 ?rc) k"
    by (rule blocks_cong) simp
  have S: "s\<lparr>loc_N := 0, prf_in := ?rc @ [0], prf_out_eta1 := replicate (64 * eta1) 0,
             prf_out_eta2 := replicate (64 * eta2) 0, loc_r := replicate (k * ntt_N) 0\<rparr> =
           s\<lparr>prf_out_eta2 := replicate (64 * eta2) 0, loc_N := 0, prf_in := ?rc @ [0],
             prf_out_eta1 := replicate (64 * eta1) 0, loc_r := replicate (k * ntt_N) 0\<rparr>"
    by (rule enc_state.equality) simp_all
  have "encrypt_sample_r P k eta1 eta2 s =
        for_each [0..<k] (sample_r_body P eta1)
          (s\<lparr>prf_out_eta2 := replicate (64 * eta2) 0, loc_N := 0, prf_in := ?rc @ [0],
             prf_out_eta1 := replicate (64 * eta1) 0, loc_r := replicate (k * ntt_N) 0\<rparr>)"
    using len by (simp add: encrypt_sample_r_def read_at_def write_coin S)
  also have "\<dots> = Some (s\<lparr>prf_out_eta2 := replicate (64 * eta2) 0, loc_N := of_nat k,
            prf_in := ?rc @ [if k = 0 then 0 else of_nat (k - 1)],
            prf_out_eta1 := (if k = 0 then replicate (64 * eta1) 0
                             else prf_bytes P ?rc (of_nat (k - 1)) (64 * eta1)),
            loc_r := blocks (\<lambda>i. if i < k then noise P eta1 ?rc i else poly_zero) k\<rparr>)"
    by (rule sample_r_loop [OF ok rc]) simp_all
  also have "\<dots> = Some (s\<lparr>loc_N := of_nat k,
            prf_in := ?rc @ [if k = 0 then 0 else of_nat (k - 1)],
            prf_out_eta1 := (if k = 0 then replicate (64 * eta1) 0
                             else prf_bytes P ?rc (of_nat (k - 1)) (64 * eta1)),
            prf_out_eta2 := replicate (64 * eta2) 0,
            loc_r := blocks (noise P eta1 ?rc) k\<rparr>)"
    unfolding C by (simp only: option.inject, rule enc_state.equality) simp_all
  finally show ?thesis .
qed

lemma sample_e1_body_eq:
  assumes ok: "prims_ok P" and rc: "length rc = 32" and po: "length po = 64 * eta2"
    and h: "\<forall>i<k. length (h i) = ntt_N" and n: "n < k"
  shows "sample_e1_body P eta2 n
           (s\<lparr>loc_N := c, prf_in := rc @ [x], prf_out_eta2 := po, loc_e1 := blocks h k\<rparr>) =
         Some (s\<lparr>loc_N := c + 1, prf_in := rc @ [c],
                 prf_out_eta2 := prf_bytes P rc c (64 * eta2),
                 loc_e1 := blocks (h(n := cbd P eta2 (prf_bytes P rc c (64 * eta2)))) k\<rparr>)"
proof -
  have W: "\<And>y. length y = ntt_N \<Longrightarrow>
             write_at (blocks h k) (n * ntt_N) y = Some (blocks (h(n := y)) k)"
    using n by (intro write_blocks [OF h]) simp_all
  have F: "fst (shake256_read P (shake256_hash P (rc @ [c])) (64 * eta2)) =
           prf_bytes P rc c (64 * eta2)"
    by (simp add: prf_bytes_def)
  show ?thesis
    using ok rc po
    by (simp add: sample_e1_body_def Let_def put_last read_at_all F write_at_all
          length_prf_bytes W prims_okD)
qed

lemma sample_e1_loop:
  assumes ok: "prims_ok P" and rc: "length rc = 32" and po: "length po = 64 * eta2"
  shows "n \<le> k \<Longrightarrow>
    for_each [0..<n] (sample_e1_body P eta2)
      (s\<lparr>loc_N := c, prf_in := rc @ [x0], prf_out_eta2 := po,
         loc_e1 := replicate (k * ntt_N) 0\<rparr>) =
    Some (s\<lparr>loc_N := c + of_nat n,
            prf_in := rc @ [if n = 0 then x0 else c + of_nat (n - 1)],
            prf_out_eta2 := (if n = 0 then po else prf_bytes P rc (c + of_nat (n - 1)) (64 * eta2)),
            loc_e1 := blocks (\<lambda>i. if i < n then cbd P eta2 (prf_bytes P rc (c + of_nat i) (64 * eta2))
                                  else poly_zero) k\<rparr>)"
proof (induction n)
  case 0
  show ?case by (simp add: replicate_blocks poly_zero_def)
next
  case (Suc n)
  let ?f = "\<lambda>i. cbd P eta2 (prf_bytes P rc (c + of_nat i) (64 * eta2))"
  let ?h = "\<lambda>i. if i < n then ?f i else poly_zero"
  define x :: byte where "x = (if n = 0 then x0 else c + of_nat (n - 1))"
  define po' where "po' = (if n = 0 then po else prf_bytes P rc (c + of_nat (n - 1)) (64 * eta2))"
  have po': "length po' = 64 * eta2"
    using ok po by (simp add: po'_def length_prf_bytes)
  have nk: "n < k" using Suc.prems by simp
  have L: "\<forall>i<k. length (?h i) = ntt_N"
    using ok by (simp add: prims_okD length_prf_bytes length_poly_zero)
  have IH: "for_each [0..<n] (sample_e1_body P eta2)
      (s\<lparr>loc_N := c, prf_in := rc @ [x0], prf_out_eta2 := po,
         loc_e1 := replicate (k * ntt_N) 0\<rparr>) =
      Some (s\<lparr>loc_N := c + of_nat n, prf_in := rc @ [x], prf_out_eta2 := po',
              loc_e1 := blocks ?h k\<rparr>)"
    using Suc.IH nk by (simp add: x_def po'_def)
  have U: "?h(n := ?f n) = (\<lambda>i. if i < Suc n then ?f i else poly_zero)"
    by (auto simp: fun_eq_iff less_Suc_eq)
  show ?case
    by (simp only: for_each_upt_Suc IH Option.bind.bind_lunit
          sample_e1_body_eq [OF ok rc po' L nk] U)
       simp
qed

lemma encrypt_sample_e1_eq:
  assumes ok: "prims_ok P" and rc: "length rc = 32"
    and N: "loc_N s = of_nat k" and pin: "prf_in s = rc @ [x0]"
    and po: "length (prf_out_eta2 s) = 64 * eta2"
  shows "encrypt_sample_e1 P k eta2 s =
    Some (s\<lparr>loc_N := of_nat (2 * k),
            prf_in := rc @ [if k = 0 then x0 else of_nat (2 * k - 1)],
            prf_out_eta2 := (if k = 0 then prf_out_eta2 s
                             else prf_bytes P rc (of_nat (2 * k - 1)) (64 * eta2)),
            loc_e1 := blocks (\<lambda>i. noise P eta2 rc (k + i)) k\<rparr>)"
proof -
  have C: "blocks (\<lambda>i. if i < k then cbd P eta2 (prf_bytes P rc (of_nat k + of_nat i) (64 * eta2))
                        else poly_zero) k =
           blocks (\<lambda>i. noise P eta2 rc (k + i)) k"
    by (rule blocks_cong) (simp add: noise_def)
  have S: "s\<lparr>loc_N := of_nat k, prf_in := rc @ [x0], prf_out_eta2 := prf_out_eta2 s,
             loc_e1 := replicate (k * ntt_N) 0\<rparr> = s\<lparr>loc_e1 := replicate (k * ntt_N) 0\<rparr>"
    by (rule enc_state.equality) (simp_all add: N pin)
  have E: "of_nat k + of_nat (k - 1) = (of_nat (2 * k - 1) :: byte)" if "k \<noteq> 0"
  proof -
    have "k + (k - 1) = 2 * k - 1" using that by simp
    then have "(of_nat (k + (k - 1)) :: byte) = of_nat (2 * k - 1)" by (rule arg_cong)
    then show ?thesis by (simp only: of_nat_add)
  qed
  have E2: "of_nat k + of_nat k = (of_nat (2 * k) :: byte)"
    by (simp only: of_nat_add [symmetric] mult_2)
  have LP: "for_each [0..<k] (sample_e1_body P eta2)
      (s\<lparr>loc_N := of_nat k, prf_in := rc @ [x0], prf_out_eta2 := prf_out_eta2 s,
         loc_e1 := replicate (k * ntt_N) 0\<rparr>) =
    Some (s\<lparr>loc_N := of_nat k + of_nat k,
            prf_in := rc @ [if k = 0 then x0 else of_nat k + of_nat (k - 1)],
            prf_out_eta2 := (if k = 0 then prf_out_eta2 s
                             else prf_bytes P rc (of_nat k + of_nat (k - 1)) (64 * eta2)),
            loc_e1 := blocks (\<lambda>i. if i < k then cbd P eta2 (prf_bytes P rc (of_nat k + of_nat i) (64 * eta2))
                        else poly_zero) k\<rparr>)"
    by (rule sample_e1_loop [OF ok rc po]) (rule order_refl)
  have R: "encrypt_sample_e1 P k eta2 s =
    Some (s\<lparr>loc_N := of_nat k + of_nat k,
            prf_in := rc @ [if k = 0 then x0 else of_nat k + of_nat (k - 1)],
            prf_out_eta2 := (if k = 0 then prf_out_eta2 s
                             else prf_bytes P rc (of_nat k + of_nat (k - 1)) (64 * eta2)),
            loc_e1 := blocks (\<lambda>i. noise P eta2 rc (k + i)) k\<rparr>)"
    by (simp only: encrypt_sample_e1_def S [symmetric] LP C)
  show ?thesis
  proof (cases "k = 0")
    case True
    then show ?thesis unfolding R by simp
  next
    case False
    then show ?thesis unfolding R by (simp only: E [OF False] E2 if_False)
  qed
qed

lemma encrypt_sample_e2_eq:
  assumes ok: "prims_ok P" and rc: "length rc = 32"
    and pin: "prf_in s = rc @ [x0]" and po: "length (prf_out_eta2 s) = 64 * eta2"
  shows "encrypt_sample_e2 P eta2 s =
    Some (s\<lparr>prf_in := rc @ [loc_N s],
            prf_out_eta2 := prf_bytes P rc (loc_N s) (64 * eta2),
            loc_e2 := cbd P eta2 (prf_bytes P rc (loc_N s) (64 * eta2))\<rparr>)"
proof -
  have F: "fst (shake256_read P (shake256_hash P (rc @ [loc_N s])) (64 * eta2)) =
           prf_bytes P rc (loc_N s) (64 * eta2)"
    by (simp add: prf_bytes_def)
  show ?thesis
    using ok rc po
    by (simp add: encrypt_sample_e2_def pin put_last read_at_all F write_at_all
          length_prf_bytes prims_okD)
qed

subsection \<open>Step 18: the transform of r\<close>

lemma ntt_r_loop:
  assumes ok: "prims_ok P" and g: "\<forall>i<k. length (g i) = ntt_N"
  shows "n \<le> k \<Longrightarrow>
    for_each [0..<n] (ntt_r_body P) (s\<lparr>loc_r := blocks g k\<rparr>) =
    Some (s\<lparr>loc_r := blocks (\<lambda>i. if i < n then ntt P (g i) else g i) k\<rparr>)"
proof (induction n)
  case 0
  show ?case by simp
next
  case (Suc n)
  let ?h = "\<lambda>i. if i < n then ntt P (g i) else g i"
  have nk: "n < k" using Suc.prems by simp
  have L: "\<forall>i<k. length (?h i) = ntt_N"
    using ok g by (simp add: prims_okD)
  have U: "?h(n := ntt P (g n)) = (\<lambda>i. if i < Suc n then ntt P (g i) else g i)"
    by (auto simp: fun_eq_iff less_Suc_eq)
  have I: "in_place (ntt P) (blocks ?h k) (n * ntt_N) = Some (blocks (?h(n := ntt P (g n))) k)"
    using in_place_blocks [OF L nk, where f = "ntt P"] ok g nk by (simp add: prims_okD)
  have B: "ntt_r_body P n (s\<lparr>loc_r := blocks ?h k\<rparr>) =
           Some (s\<lparr>loc_r := blocks (\<lambda>i. if i < Suc n then ntt P (g i) else g i) k\<rparr>)"
    unfolding U [symmetric] by (simp add: ntt_r_body_def I)
  have IH: "for_each [0..<n] (ntt_r_body P) (s\<lparr>loc_r := blocks g k\<rparr>) =
            Some (s\<lparr>loc_r := blocks ?h k\<rparr>)"
    using Suc.IH nk by simp
  show ?case
    by (simp only: for_each_upt_Suc IH B Option.bind.bind_lunit)
qed

subsection \<open>Step 19: u\<close>

lemma fun_upd_if: "(\<lambda>a. if a = i then y else h a) = h(i := y)"
  by auto

lemma length_foldl_poly_add:
  "length a = n \<Longrightarrow> \<forall>p\<in>set ps. length p = n \<Longrightarrow> length (foldl poly_add a ps) = n"
  by (induction ps arbitrary: a) (simp_all add: length_poly_add)

lemma length_foldl_pm:
  "length a = n \<Longrightarrow> m \<le> k \<Longrightarrow> \<forall>j<k. length (f j) = n \<Longrightarrow>
   length (foldl poly_add a (map f [0..<m])) = n"
  by (rule length_foldl_poly_add) auto

lemma take_drop_blocks:
  assumes "\<forall>i<k. length (h i) = m" "i < k"
  shows "take m (drop (i * m) (blocks h k)) = h i"
  using read_blocks [OF assms] by (simp add: read_at_def split: if_splits)

lemma length_blocks_le:
  assumes "\<forall>i<k. length (h i) = m" "i < k"
  shows "i * m + m \<le> length (blocks h k)"
  using read_blocks [OF assms] by (simp add: read_at_def split: if_splits)

lemma u_inner_body_eq:
  assumes ok: "prims_ok P"
    and A: "A_prime s = blocks Af (k * k)" and Al: "\<forall>p<k * k. length (Af p) = ntt_N"
    and R: "loc_r s = blocks rh k" and Rl: "\<forall>j<k. length (rh j) = ntt_N"
    and h: "\<forall>i<k. length (h i) = ntt_N" and tm: "length tm = ntt_N"
    and i: "i < k" and j: "j < k"
  shows "u_inner_body P k i j (s\<lparr>loc_tmp := tm, loc_u := blocks h k\<rparr>) =
         Some (s\<lparr>loc_tmp := polymul P (Af (i * k + j)) (rh j),
                 loc_u := blocks (h(i := poly_add (h i) (polymul P (Af (i * k + j)) (rh j)))) k\<rparr>)"
proof -
  have lt: "i * k + j < k * k" using i j by (rule idx_lt)
  have RA: "read_at (blocks Af (k * k)) ((i * k + j) * ntt_N) ntt_N = Some (Af (i * k + j))"
    using lt by (intro read_blocks [OF Al]) simp_all
  have RR: "read_at (blocks rh k) (j * ntt_N) ntt_N = Some (rh j)"
    using j by (intro read_blocks [OF Rl]) simp_all
  have pl: "length (polymul P (Af (i * k + j)) (rh j)) = ntt_N"
    using ok lt j Al Rl by (simp add: prims_okD)
  have AI: "add_into (blocks h k) (i * ntt_N) (polymul P (Af (i * k + j)) (rh j)) 0 =
            Some (blocks (h(i := poly_add (h i) (polymul P (Af (i * k + j)) (rh j)))) k)"
    using add_into_blocks [where h = h and soff = 0
          and src = "polymul P (Af (i * k + j)) (rh j)", OF h i] pl
    by simp
  show ?thesis
    using tm pl by (simp add: u_inner_body_def Let_def A R RA RR write_at_all AI)
qed

lemma u_inner_loop:
  assumes ok: "prims_ok P"
    and A: "A_prime s = blocks Af (k * k)" and Al: "\<forall>p<k * k. length (Af p) = ntt_N"
    and R: "loc_r s = blocks rh k" and Rl: "\<forall>j<k. length (rh j) = ntt_N"
    and h: "\<forall>i<k. length (h i) = ntt_N" and tm: "length tm = ntt_N"
    and i: "i < k"
  shows "n \<le> k \<Longrightarrow>
    for_each [0..<n] (u_inner_body P k i) (s\<lparr>loc_tmp := tm, loc_u := blocks h k\<rparr>) =
    Some (s\<lparr>loc_tmp := (if n = 0 then tm else polymul P (Af (i * k + (n - 1))) (rh (n - 1))),
            loc_u := blocks (h(i := foldl poly_add (h i)
                       (map (\<lambda>j. polymul P (Af (i * k + j)) (rh j)) [0..<n]))) k\<rparr>)"
proof (induction n)
  case 0
  show ?case by simp
next
  case (Suc n)
  let ?pm = "\<lambda>j. polymul P (Af (i * k + j)) (rh j)"
  let ?acc = "foldl poly_add (h i) (map ?pm [0..<n])"
  define tm' where "tm' = (if n = 0 then tm else ?pm (n - 1))"
  have nk: "n < k" using Suc.prems by simp
  have pml: "\<forall>j<k. length (?pm j) = ntt_N"
    using ok i Al Rl by (simp add: prims_okD idx_lt)
  have tm': "length tm' = ntt_N"
  proof (cases "n = 0")
    case True
    then show ?thesis using tm by (simp add: tm'_def)
  next
    case False
    then have "n - 1 < k" using nk by simp
    with pml have "length (?pm (n - 1)) = ntt_N" by blast
    with False show ?thesis by (simp only: tm'_def if_False)
  qed
  have accl: "length ?acc = ntt_N"
    using h i nk pml by (intro length_foldl_pm [where k = k]) simp_all
  have L: "\<forall>i'<k. length ((h(i := ?acc)) i') = ntt_N"
    using accl h by simp
  have IH: "for_each [0..<n] (u_inner_body P k i) (s\<lparr>loc_tmp := tm, loc_u := blocks h k\<rparr>) =
            Some (s\<lparr>loc_tmp := tm', loc_u := blocks (h(i := ?acc)) k\<rparr>)"
    unfolding tm'_def by (rule Suc.IH) (use nk in simp)
  have B: "u_inner_body P k i n (s\<lparr>loc_tmp := tm', loc_u := blocks (h(i := ?acc)) k\<rparr>) =
           Some (s\<lparr>loc_tmp := ?pm n, loc_u := blocks (h(i := poly_add ?acc (?pm n))) k\<rparr>)"
    using u_inner_body_eq [where h = "h(i := ?acc)", OF ok A Al R Rl L tm' i nk] by simp
  show ?case
    by (simp only: for_each_upt_Suc IH B Option.bind.bind_lunit) (simp add: fun_upd_if)
qed

lemma u_outer_body_eq:
  assumes ok: "prims_ok P"
    and A: "A_prime s = blocks Af (k * k)" and Al: "\<forall>p<k * k. length (Af p) = ntt_N"
    and R: "loc_r s = blocks rh k" and Rl: "\<forall>j<k. length (rh j) = ntt_N"
    and E: "loc_e1 s = blocks e k" and El: "\<forall>j<k. length (e j) = ntt_N"
    and h: "\<forall>i<k. length (h i) = ntt_N" and tm: "length tm = ntt_N"
    and i: "i < k"
  shows "u_outer_body P k i (s\<lparr>loc_tmp := tm, loc_u := blocks h k\<rparr>) =
    Some (s\<lparr>loc_tmp := polymul P (Af (i * k + (k - 1))) (rh (k - 1)),
            loc_u := blocks (h(i := poly_add
                       (intt P (foldl poly_add (h i)
                          (map (\<lambda>j. polymul P (Af (i * k + j)) (rh j)) [0..<k])))
                       (e i))) k\<rparr>)"
proof -
  let ?pm = "\<lambda>j. polymul P (Af (i * k + j)) (rh j)"
  let ?acc = "foldl poly_add (h i) (map ?pm [0..<k])"
  have k0: "k \<noteq> 0" using i by simp
  have pml: "\<forall>j<k. length (?pm j) = ntt_N"
    using ok i Al Rl by (simp add: prims_okD idx_lt)
  have accl: "length ?acc = ntt_N"
    using h i pml by (intro length_foldl_pm [where k = k]) simp_all
  have L: "\<forall>i'<k. length ((h(i := ?acc)) i') = ntt_N"
    using accl h by simp
  have il: "length (intt P ?acc) = ntt_N"
    using ok accl by (simp add: prims_okD)
  have L2: "\<forall>i'<k. length ((h(i := intt P ?acc)) i') = ntt_N"
    using il h by simp
  have IL: "for_each [0..<k] (u_inner_body P k i) (s\<lparr>loc_tmp := tm, loc_u := blocks h k\<rparr>) =
            Some (s\<lparr>loc_tmp := ?pm (k - 1), loc_u := blocks (h(i := ?acc)) k\<rparr>)"
    using u_inner_loop [OF ok A Al R Rl h tm i, where n = k] k0 by simp
  have IP: "in_place (intt P) (blocks (h(i := ?acc)) k) (i * ntt_N) =
            Some (blocks (h(i := intt P ?acc)) k)"
    using in_place_blocks [where h = "h(i := ?acc)" and f = "intt P", OF L i] il by simp
  have AI: "add_into (blocks (h(i := intt P ?acc)) k) (i * ntt_N) (blocks e k) (i * ntt_N) =
            Some (blocks (h(i := poly_add (intt P ?acc) (e i))) k)"
    using add_into_blocks [where h = "h(i := intt P ?acc)" and src = "blocks e k"
          and soff = "i * ntt_N", OF L2 i]
      length_blocks_le [OF El i] take_drop_blocks [OF El i]
    by simp
  show ?thesis
    by (simp add: u_outer_body_def Let_def IL IP E AI)
qed

lemma u_outer_loop:
  assumes ok: "prims_ok P"
    and A: "A_prime s = blocks Af (k * k)" and Al: "\<forall>p<k * k. length (Af p) = ntt_N"
    and R: "loc_r s = blocks rh k" and Rl: "\<forall>j<k. length (rh j) = ntt_N"
    and E: "loc_e1 s = blocks e k" and El: "\<forall>j<k. length (e j) = ntt_N"
    and tm: "length tm = ntt_N"
  shows "m \<le> k \<Longrightarrow>
    for_each [0..<m] (u_outer_body P k) (s\<lparr>loc_tmp := tm, loc_u := blocks (\<lambda>_. poly_zero) k\<rparr>) =
    Some (s\<lparr>loc_tmp := (if m = 0 then tm else polymul P (Af ((m - 1) * k + (k - 1))) (rh (k - 1))),
            loc_u := blocks (\<lambda>i. if i < m
               then poly_add (intt P (foldl poly_add poly_zero
                      (map (\<lambda>j. polymul P (Af (i * k + j)) (rh j)) [0..<k]))) (e i)
               else poly_zero) k\<rparr>)"
proof (induction m)
  case 0
  show ?case by simp
next
  case (Suc m)
  let ?U = "\<lambda>i. poly_add (intt P (foldl poly_add poly_zero
                      (map (\<lambda>j. polymul P (Af (i * k + j)) (rh j)) [0..<k]))) (e i)"
  let ?H = "\<lambda>i. if i < m then ?U i else poly_zero"
  define tm' where "tm' = (if m = 0 then tm else polymul P (Af ((m - 1) * k + (k - 1))) (rh (k - 1)))"
  have mk: "m < k" using Suc.prems by simp
  have pml: "\<forall>i<k. \<forall>j<k. length (polymul P (Af (i * k + j)) (rh j)) = ntt_N"
    using ok Al Rl by (simp add: prims_okD idx_lt)
  have Ul: "\<forall>i<k. length (?U i) = ntt_N"
  proof (intro allI impI)
    fix i assume i: "i < k"
    have "length (foldl poly_add poly_zero
            (map (\<lambda>j. polymul P (Af (i * k + j)) (rh j)) [0..<k])) = ntt_N"
      using pml i by (intro length_foldl_pm [where k = k]) (simp_all add: length_poly_zero)
    then show "length (?U i) = ntt_N"
      using ok El i by (simp add: length_poly_add prims_okD)
  qed
  have L: "\<forall>i<k. length (?H i) = ntt_N"
    using Ul by (simp add: length_poly_zero)
  have tm': "length tm' = ntt_N"
  proof (cases "m = 0")
    case True
    then show ?thesis using tm by (simp add: tm'_def)
  next
    case False
    then have "m - 1 < k" "k - 1 < k" using mk by simp_all
    with pml have "length (polymul P (Af ((m - 1) * k + (k - 1))) (rh (k - 1))) = ntt_N" by blast
    with False show ?thesis by (simp only: tm'_def if_False)
  qed
  have IH: "for_each [0..<m] (u_outer_body P k) (s\<lparr>loc_tmp := tm, loc_u := blocks (\<lambda>_. poly_zero) k\<rparr>) =
            Some (s\<lparr>loc_tmp := tm', loc_u := blocks ?H k\<rparr>)"
    unfolding tm'_def by (rule Suc.IH) (use mk in simp)
  have U: "?H(m := ?U m) = (\<lambda>i. if i < Suc m then ?U i else poly_zero)"
    by (auto simp: fun_eq_iff less_Suc_eq)
  have Hm: "?H m = poly_zero" by simp
  have B: "u_outer_body P k m (s\<lparr>loc_tmp := tm', loc_u := blocks ?H k\<rparr>) =
           Some (s\<lparr>loc_tmp := polymul P (Af (m * k + (k - 1))) (rh (k - 1)),
                   loc_u := blocks (?H(m := ?U m)) k\<rparr>)"
    using u_outer_body_eq [where h = ?H, OF ok A Al R Rl E El L tm' mk]
    by (simp only: Hm)
  show ?case
    by (simp only: for_each_upt_Suc IH B U Option.bind.bind_lunit) simp
qed

lemma encrypt_u_eq:
  assumes ok: "prims_ok P"
    and A: "A_prime s = blocks Af (k * k)" and Al: "\<forall>p<k * k. length (Af p) = ntt_N"
    and R: "loc_r s = blocks rh k" and Rl: "\<forall>j<k. length (rh j) = ntt_N"
    and E: "loc_e1 s = blocks e k" and El: "\<forall>j<k. length (e j) = ntt_N"
  shows "encrypt_u P k s =
    Some (s\<lparr>loc_tmp := (if k = 0 then poly_zero
                          else polymul P (Af ((k - 1) * k + (k - 1))) (rh (k - 1))),
            loc_u := blocks (\<lambda>i. poly_add
               (intt P (poly_sum (map (\<lambda>j. polymul P (Af (i * k + j)) (rh j)) [0..<k]))) (e i)) k\<rparr>)"
proof -
  let ?U = "\<lambda>i. poly_add (intt P (foldl poly_add poly_zero
                      (map (\<lambda>j. polymul P (Af (i * k + j)) (rh j)) [0..<k]))) (e i)"
  have C: "blocks (\<lambda>i. if i < k then ?U i else poly_zero) k = blocks ?U k"
    by (rule blocks_cong) simp
  have S: "s\<lparr>loc_u := replicate (k * ntt_N) 0, loc_tmp := replicate ntt_N 0\<rparr> =
           s\<lparr>loc_tmp := poly_zero, loc_u := blocks (\<lambda>_. poly_zero) k\<rparr>"
    by (rule enc_state.equality) (simp_all add: replicate_blocks poly_zero_def)
  have "encrypt_u P k s =
        for_each [0..<k] (u_outer_body P k) (s\<lparr>loc_tmp := poly_zero, loc_u := blocks (\<lambda>_. poly_zero) k\<rparr>)"
    by (simp add: encrypt_u_def write_at_all S)
  also have "\<dots> = Some (s\<lparr>loc_tmp := (if k = 0 then poly_zero
                          else polymul P (Af ((k - 1) * k + (k - 1))) (rh (k - 1))),
            loc_u := blocks (\<lambda>i. if i < k then ?U i else poly_zero) k\<rparr>)"
    by (rule u_outer_loop [OF ok A Al R Rl E El length_poly_zero]) simp
  finally show ?thesis
    unfolding C poly_sum_def .
qed

subsection \<open>Step 20: v\<close>

lemma v_body_eq:
  assumes ok: "prims_ok P"
    and T: "t_prime s = blocks Th k" and Tl: "\<forall>i<k. length (Th i) = ntt_N"
    and R: "loc_r s = blocks rh k" and Rl: "\<forall>j<k. length (rh j) = ntt_N"
    and vv: "length vv = ntt_N" and tm: "length tm = ntt_N" and i: "i < k"
  shows "v_body P i (s\<lparr>loc_tmp := tm, loc_v := vv\<rparr>) =
         Some (s\<lparr>loc_tmp := polymul P (Th i) (rh i),
                 loc_v := poly_add vv (polymul P (Th i) (rh i))\<rparr>)"
proof -
  have RT: "read_at (blocks Th k) (i * ntt_N) ntt_N = Some (Th i)"
    using i by (intro read_blocks [OF Tl]) simp_all
  have RR: "read_at (blocks rh k) (i * ntt_N) ntt_N = Some (rh i)"
    using i by (intro read_blocks [OF Rl]) simp_all
  have pl: "length (polymul P (Th i) (rh i)) = ntt_N"
    using ok i Tl Rl by (simp add: prims_okD)
  have AI: "add_into vv 0 (polymul P (Th i) (rh i)) 0 =
            Some (poly_add vv (polymul P (Th i) (rh i)))"
    using add_into_all [where x = vv and soff = 0 and src = "polymul P (Th i) (rh i)"] vv pl
    by simp
  show ?thesis
    using tm pl by (simp add: v_body_def Let_def T R RT RR write_at_all AI)
qed

lemma v_loop:
  assumes ok: "prims_ok P"
    and T: "t_prime s = blocks Th k" and Tl: "\<forall>i<k. length (Th i) = ntt_N"
    and R: "loc_r s = blocks rh k" and Rl: "\<forall>j<k. length (rh j) = ntt_N"
    and vv: "length vv = ntt_N" and tm: "length tm = ntt_N"
  shows "n \<le> k \<Longrightarrow>
    for_each [0..<n] (v_body P) (s\<lparr>loc_tmp := tm, loc_v := vv\<rparr>) =
    Some (s\<lparr>loc_tmp := (if n = 0 then tm else polymul P (Th (n - 1)) (rh (n - 1))),
            loc_v := foldl poly_add vv (map (\<lambda>i. polymul P (Th i) (rh i)) [0..<n])\<rparr>)"
proof (induction n)
  case 0
  show ?case by simp
next
  case (Suc n)
  let ?pm = "\<lambda>i. polymul P (Th i) (rh i)"
  let ?acc = "foldl poly_add vv (map ?pm [0..<n])"
  define tm' where "tm' = (if n = 0 then tm else ?pm (n - 1))"
  have nk: "n < k" using Suc.prems by simp
  have pml: "\<forall>j<k. length (?pm j) = ntt_N"
    using ok Tl Rl by (simp add: prims_okD)
  have tm': "length tm' = ntt_N"
  proof (cases "n = 0")
    case True
    then show ?thesis using tm by (simp add: tm'_def)
  next
    case False
    then have "n - 1 < k" using nk by simp
    with pml have "length (?pm (n - 1)) = ntt_N" by blast
    with False show ?thesis by (simp only: tm'_def if_False)
  qed
  have accl: "length ?acc = ntt_N"
    using vv nk pml by (intro length_foldl_pm [where k = k]) simp_all
  have IH: "for_each [0..<n] (v_body P) (s\<lparr>loc_tmp := tm, loc_v := vv\<rparr>) =
            Some (s\<lparr>loc_tmp := tm', loc_v := ?acc\<rparr>)"
    unfolding tm'_def by (rule Suc.IH) (use nk in simp)
  note B = v_body_eq [OF ok T Tl R Rl accl tm' nk]
  show ?case
    by (simp only: for_each_upt_Suc IH B Option.bind.bind_lunit) simp
qed

lemma encrypt_v_eq:
  assumes ok: "prims_ok P"
    and T: "t_prime s = blocks Th k" and Tl: "\<forall>i<k. length (Th i) = ntt_N"
    and R: "loc_r s = blocks rh k" and Rl: "\<forall>j<k. length (rh j) = ntt_N"
    and E2: "length (loc_e2 s) = ntt_N" and tm: "length (loc_tmp s) = ntt_N"
    and ms: "32 \<le> length (msg s)"
  shows "encrypt_v P k s =
    Some (s\<lparr>loc_tmp := (if k = 0 then loc_tmp s else polymul P (Th (k - 1)) (rh (k - 1))),
            loc_v := poly_add
               (poly_add (intt P (poly_sum (map (\<lambda>i. polymul P (Th i) (rh i)) [0..<k]))) (loc_e2 s))
               (poly_decompress P 1 (decode P 1 (take 32 (msg s)))),
            loc_m := poly_decompress P 1 (decode P 1 (take 32 (msg s)))\<rparr>)"
proof -
  let ?pm = "\<lambda>i. polymul P (Th i) (rh i)"
  let ?sum = "poly_sum (map ?pm [0..<k])"
  let ?M = "poly_decompress P 1 (decode P 1 (take 32 (msg s)))"
  define tmv where "tmv = (if k = 0 then loc_tmp s else ?pm (k - 1))"
  have pml: "\<forall>j<k. length (?pm j) = ntt_N"
    using ok Tl Rl by (simp add: prims_okD)
  have suml: "length ?sum = ntt_N"
    unfolding poly_sum_def
    using pml by (intro length_foldl_pm [where k = k]) (simp_all add: length_poly_zero)
  have il: "length (intt P ?sum) = ntt_N"
    using ok suml by (simp add: prims_okD)
  have dl: "length (decode P 1 (take 32 (msg s))) = ntt_N"
    using ok ms by (simp add: prims_okD)
  have Ml: "length ?M = ntt_N"
    using ok dl by (simp add: prims_okD)
  have S: "s\<lparr>loc_v := replicate ntt_N 0\<rparr> = s\<lparr>loc_tmp := loc_tmp s, loc_v := poly_zero\<rparr>"
    by (rule enc_state.equality) (simp_all add: poly_zero_def)
  have LP: "for_each [0..<k] (v_body P) (s\<lparr>loc_tmp := loc_tmp s, loc_v := poly_zero\<rparr>) =
            Some (s\<lparr>loc_tmp := tmv, loc_v := ?sum\<rparr>)"
    unfolding poly_sum_def tmv_def
    by (rule v_loop [OF ok T Tl R Rl length_poly_zero tm]) simp
  have I1: "in_place (intt P) ?sum 0 = Some (intt P ?sum)"
    using suml il by (rule in_place_all)
  have A1: "add_into (intt P ?sum) 0 (loc_e2 s) 0 = Some (poly_add (intt P ?sum) (loc_e2 s))"
    using add_into_all [where x = "intt P ?sum" and soff = 0 and src = "loc_e2 s"] il E2
    by simp
  have RM: "read_at (msg s) 0 32 = Some (take 32 (msg s))"
    using ms by (simp add: read_at_def)
  have WM: "write_at (replicate ntt_N 0) 0 (decode P 1 (take 32 (msg s))) =
            Some (decode P 1 (take 32 (msg s)))"
    using dl by (simp add: write_at_all)
  have I2: "in_place (poly_decompress P 1) (decode P 1 (take 32 (msg s))) 0 = Some ?M"
    using dl Ml by (rule in_place_all)
  have A2: "add_into (poly_add (intt P ?sum) (loc_e2 s)) 0 ?M 0 =
            Some (poly_add (poly_add (intt P ?sum) (loc_e2 s)) ?M)"
    using add_into_all [where x = "poly_add (intt P ?sum) (loc_e2 s)" and soff = 0 and src = ?M]
      il E2 Ml
    by (simp add: length_poly_add)
  have W0: "write_at (replicate ntt_N (0::ff_t)) 0 (replicate ntt_N 0) = Some (replicate ntt_N 0)"
    by (simp add: write_at_all)
  have "encrypt_v P k s =
    Some (s\<lparr>loc_tmp := tmv,
            loc_v := poly_add (poly_add (intt P ?sum) (loc_e2 s)) ?M, loc_m := ?M\<rparr>)"
    unfolding encrypt_v_def
    by (simp only: W0 Option.bind.bind_lunit S LP) (use I1 A1 RM WM I2 A2 in simp)
  then show ?thesis unfolding tmv_def .
qed

subsection \<open>Steps 21 and 22: the ciphertext\<close>

lemma pack_u_body_eq:
  assumes ok: "prims_ok P" and h: "\<forall>i<k. length (h i) = ntt_N" and i: "i < k"
    and lenA: "length A = i * du * 32" and lenR: "32 * du \<le> length Rr"
  shows "pack_u_body P du i (s\<lparr>loc_u := blocks h k, enc := A @ Rr\<rparr>) =
    Some (s\<lparr>loc_u := blocks (h(i := poly_compress P du (h i))) k,
            enc := A @ encode P du (poly_compress P du (h i)) @ drop (32 * du) Rr\<rparr>)"
proof -
  let ?c = "poly_compress P du (h i)"
  have cl: "length ?c = ntt_N"
    using ok h i by (simp add: prims_okD)
  have L: "\<forall>i'<k. length ((h(i := ?c)) i') = ntt_N"
    using cl h by simp
  have IP: "in_place (poly_compress P du) (blocks h k) (i * ntt_N) = Some (blocks (h(i := ?c)) k)"
    using in_place_blocks [where h = h and f = "poly_compress P du", OF h i] cl by simp
  have RB: "read_at (blocks (h(i := ?c)) k) (i * ntt_N) ntt_N = Some ?c"
    using read_blocks [where h = "h(i := ?c)", OF L i] by simp
  have el: "length (encode P du ?c) = 32 * du"
    using ok cl by (simp add: prims_okD)
  show ?thesis
    using lenR by (simp add: pack_u_body_def Let_def IP RB write_at_app lenA el)
qed

lemma pack_u_loop:
  assumes ok: "prims_ok P" and U: "\<forall>i<k. length (U i) = ntt_N"
    and lenE: "k * du * 32 \<le> length E0"
  shows "n \<le> k \<Longrightarrow>
    for_each [0..<n] (pack_u_body P du) (s\<lparr>loc_u := blocks U k, enc := E0\<rparr>) =
    Some (s\<lparr>loc_u := blocks (\<lambda>i. if i < n then poly_compress P du (U i) else U i) k,
            enc := blocks (\<lambda>i. encode P du (poly_compress P du (U i))) n @ drop (n * du * 32) E0\<rparr>)"
proof (induction n)
  case 0
  show ?case by (simp add: blocks_0)
next
  case (Suc n)
  let ?cb = "\<lambda>i. encode P du (poly_compress P du (U i))"
  let ?h = "\<lambda>i. if i < n then poly_compress P du (U i) else U i"
  have nk: "n < k" using Suc.prems by simp
  have L: "\<forall>i<k. length (?h i) = ntt_N"
    using ok U by (simp add: prims_okD)
  have cbl: "\<forall>i<n. length (?cb i) = 32 * du"
    using ok U nk by (simp add: prims_okD)
  have lenA: "length (blocks ?cb n) = n * du * 32"
    using length_blocks [OF cbl] by (simp add: ac_simps)
  have M: "Suc n * du \<le> k * du"
    using nk by (intro mult_le_mono1) simp
  have lenR: "32 * du \<le> length (drop (n * du * 32) E0)"
    using M lenE by simp
  have IH: "for_each [0..<n] (pack_u_body P du) (s\<lparr>loc_u := blocks U k, enc := E0\<rparr>) =
            Some (s\<lparr>loc_u := blocks ?h k, enc := blocks ?cb n @ drop (n * du * 32) E0\<rparr>)"
    by (rule Suc.IH) (use nk in simp)
  have Hn: "?h n = U n" by simp
  have U': "?h(n := poly_compress P du (U n)) =
            (\<lambda>i. if i < Suc n then poly_compress P du (U i) else U i)"
    by (auto simp: fun_eq_iff less_Suc_eq)
  have D: "drop (32 * du) (drop (n * du * 32) E0) = drop (Suc n * du * 32) E0"
    by (simp add: ac_simps)
  have B: "pack_u_body P du n (s\<lparr>loc_u := blocks ?h k, enc := blocks ?cb n @ drop (n * du * 32) E0\<rparr>) =
    Some (s\<lparr>loc_u := blocks (\<lambda>i. if i < Suc n then poly_compress P du (U i) else U i) k,
            enc := blocks ?cb (Suc n) @ drop (Suc n * du * 32) E0\<rparr>)"
    using pack_u_body_eq [where h = ?h, OF ok L nk lenA lenR, where s = s]
    by (simp only: Hn U' D blocks_Suc append_assoc)
  show ?case
    by (simp only: for_each_upt_Suc IH B Option.bind.bind_lunit)
qed

lemma encrypt_pack_u_eq:
  assumes ok: "prims_ok P" and U: "\<forall>i<k. length (U i) = ntt_N"
    and lenE: "k * du * 32 \<le> length E0"
  shows "encrypt_pack_u P k du (s\<lparr>loc_u := blocks U k, enc := E0\<rparr>) =
    Some (s\<lparr>loc_u := blocks (\<lambda>i. poly_compress P du (U i)) k,
            enc := blocks (\<lambda>i. encode P du (poly_compress P du (U i))) k @ drop (k * du * 32) E0\<rparr>)"
proof -
  have C: "blocks (\<lambda>i. if i < k then poly_compress P du (U i) else U i) k =
           blocks (\<lambda>i. poly_compress P du (U i)) k"
    by (rule blocks_cong) simp
  show ?thesis
    unfolding encrypt_pack_u_def C [symmetric]
    by (rule pack_u_loop [OF ok U lenE]) simp
qed

lemma encrypt_pack_v_eq:
  assumes ok: "prims_ok P" and V: "length V = ntt_N"
    and lenA: "length A = k * du * 32" and lenR: "32 * dv \<le> length Rr"
  shows "encrypt_pack_v P k du dv (s\<lparr>loc_v := V, enc := A @ Rr\<rparr>) =
    Some (s\<lparr>loc_v := poly_compress P dv V,
            enc := A @ encode P dv (poly_compress P dv V) @ drop (32 * dv) Rr\<rparr>)"
proof -
  have cl: "length (poly_compress P dv V) = ntt_N"
    using ok V by (simp add: prims_okD)
  have el: "length (encode P dv (poly_compress P dv V)) = 32 * dv"
    using ok cl by (simp add: prims_okD)
  show ?thesis
    using lenR V cl
    by (simp add: encrypt_pack_v_def Let_def in_place_all read_at_all write_at_app lenA el)
qed

subsection \<open>The whole of encrypt\<close>

lemma length_noise: "prims_ok P \<Longrightarrow> length (noise P eta rc n) = ntt_N"
  by (simp add: noise_def prims_okD length_prf_bytes)

lemma length_r_hat: "prims_ok P \<Longrightarrow> length (r_hat P eta rc n) = ntt_N"
  by (simp add: r_hat_def prims_okD length_noise)

lemma length_A_entry: "prims_ok P \<Longrightarrow> length (A_entry P rho a b) = ntt_N"
  by (simp add: A_entry_def prims_okD)

lemma encrypt_sampled_eq:
  assumes ok: "prims_ok P" and pk: "k * 384 + 32 \<le> length (pubkey s)"
    and rcl: "32 \<le> length (rcoin s)"
  shows "encrypt_sampled P k eta1 eta2 s = Some (sampled_state P k eta1 eta2 s)"
proof -
  let ?pk = "pubkey s" and ?rc = "take 32 (rcoin s)"
  let ?rho = "pk_rho k ?pk"
  have rc: "length ?rc = 32" using rcl by simp
  define s2 where "s2 = s\<lparr>t_prime := blocks (t_hat P ?pk) k\<rparr>"
  define s8 where "s8 = s2\<lparr>xof_in := ?rho @ (if k = 0 then [0, 0] else [of_nat (k - 1), of_nat (k - 1)]),
            A_prime := blocks (\<lambda>p. A_entry P ?rho (p div k) (p mod k)) (k * k)\<rparr>"
  define s12 where "s12 = s8\<lparr>loc_N := of_nat k,
            prf_in := ?rc @ [if k = 0 then 0 else of_nat (k - 1)],
            prf_out_eta1 := (if k = 0 then replicate (64 * eta1) 0
                             else prf_bytes P ?rc (of_nat (k - 1)) (64 * eta1)),
            prf_out_eta2 := replicate (64 * eta2) 0,
            loc_r := blocks (noise P eta1 ?rc) k\<rparr>"
  define s16 where "s16 = s12\<lparr>loc_N := of_nat (2 * k),
            prf_in := ?rc @ [if k = 0 then 0 else of_nat (2 * k - 1)],
            prf_out_eta2 := (if k = 0 then prf_out_eta2 s12
                             else prf_bytes P ?rc (of_nat (2 * k - 1)) (64 * eta2)),
            loc_e1 := blocks (\<lambda>i. noise P eta2 ?rc (k + i)) k\<rparr>"
  have pk2: "k * 384 \<le> length (pubkey s)" using pk by simp
  have 1: "encrypt_step2 P k s = Some s2"
    unfolding s2_def by (rule encrypt_step2_eq [OF ok pk2])
  have "pubkey s2 = ?pk" by (simp add: s2_def)
  then have 2: "encrypt_matrix P k s2 = Some s8"
    using encrypt_matrix_eq [OF ok, of k s2] pk by (simp add: s8_def)
  have "rcoin s8 = rcoin s" by (simp add: s8_def s2_def)
  then have 3: "encrypt_sample_r P k eta1 eta2 s8 = Some s12"
    using encrypt_sample_r_eq [OF ok, of s8 k eta1 eta2] rcl by (simp add: s12_def)
  have 4: "encrypt_sample_e1 P k eta2 s12 = Some s16"
  proof -
    have a: "loc_N s12 = of_nat k" by (simp add: s12_def)
    have b: "prf_in s12 = ?rc @ [if k = 0 then 0 else of_nat (k - 1)]" by (simp add: s12_def)
    have c: "length (prf_out_eta2 s12) = 64 * eta2" by (simp add: s12_def)
    from encrypt_sample_e1_eq [OF ok rc a b c] show ?thesis
      unfolding s16_def by (cases "k = 0") simp_all
  qed
  have po16: "length (prf_out_eta2 s16) = 64 * eta2"
    using ok by (simp add: s16_def s12_def length_prf_bytes)
  have pin16: "prf_in s16 = ?rc @ [if k = 0 then 0 else of_nat (2 * k - 1)]"
    by (simp add: s16_def)
  have N16: "loc_N s16 = of_nat (2 * k)" by (simp add: s16_def)
  have 5: "encrypt_sample_e2 P eta2 s16 =
    Some (s16\<lparr>prf_in := ?rc @ [of_nat (2 * k)],
            prf_out_eta2 := prf_bytes P ?rc (of_nat (2 * k)) (64 * eta2),
            loc_e2 := noise P eta2 ?rc (2 * k)\<rparr>)"
    using encrypt_sample_e2_eq [OF ok rc pin16 po16] by (simp only: N16 noise_def)
  have F: "s16\<lparr>prf_in := ?rc @ [of_nat (2 * k)],
            prf_out_eta2 := prf_bytes P ?rc (of_nat (2 * k)) (64 * eta2),
            loc_e2 := noise P eta2 ?rc (2 * k)\<rparr> = sampled_state P k eta1 eta2 s"
    by (rule enc_state.equality)
       (simp_all add: sampled_state_def Let_def s16_def s12_def s8_def s2_def)
  show ?thesis
    unfolding encrypt_sampled_def by (simp only: 1 2 3 4 5 F Option.bind.bind_lunit)
qed

lemma encrypt_ntt_r_eq:
  assumes ok: "prims_ok P" and g: "\<forall>i<k. length (g i) = ntt_N" and R: "loc_r s = blocks g k"
  shows "encrypt_ntt_r P k s = Some (s\<lparr>loc_r := blocks (\<lambda>i. ntt P (g i)) k\<rparr>)"
proof -
  have S: "s\<lparr>loc_r := blocks g k\<rparr> = s" by (simp add: R [symmetric])
  have C: "blocks (\<lambda>i. if i < k then ntt P (g i) else g i) k = blocks (\<lambda>i. ntt P (g i)) k"
    by (rule blocks_cong) simp
  have "for_each [0..<k] (ntt_r_body P) (s\<lparr>loc_r := blocks g k\<rparr>) =
        Some (s\<lparr>loc_r := blocks (\<lambda>i. if i < k then ntt P (g i) else g i) k\<rparr>)"
    by (rule ntt_r_loop [OF ok g]) simp
  then show ?thesis unfolding encrypt_ntt_r_def S C .
qed

lemma u_poly_blocks:
  "blocks (\<lambda>i. poly_add (intt P (poly_sum (map (\<lambda>j. polymul P
       (A_entry P (pk_rho k pk) ((i * k + j) div k) ((i * k + j) mod k)) (r_hat P eta1 rc j))
       [0..<k]))) (noise P eta2 rc (k + i))) k =
   blocks (u_poly P k eta1 eta2 pk rc) k"
proof (rule blocks_cong)
  fix i assume "i < k"
  have "map (\<lambda>j. polymul P (A_entry P (pk_rho k pk) ((i * k + j) div k) ((i * k + j) mod k))
               (r_hat P eta1 rc j)) [0..<k] =
        map (\<lambda>j. polymul P (A_entry P (pk_rho k pk) i j) (r_hat P eta1 rc j)) [0..<k]"
    by (rule map_cong) simp_all
  then show "poly_add (intt P (poly_sum (map (\<lambda>j. polymul P
       (A_entry P (pk_rho k pk) ((i * k + j) div k) ((i * k + j) mod k)) (r_hat P eta1 rc j))
       [0..<k]))) (noise P eta2 rc (k + i)) = u_poly P k eta1 eta2 pk rc i"
    by (simp only: u_poly_def)
qed

lemma encrypt_computed_eq:
  assumes ok: "prims_ok P" and pk: "k * 384 + 32 \<le> length (pubkey s)"
    and msl: "32 \<le> length (msg s)" and rcl: "32 \<le> length (rcoin s)"
  shows "encrypt_computed P k eta1 eta2 s = Some (computed_state P k eta1 eta2 s)"
proof -
  let ?pk = "pubkey s" and ?rc = "take 32 (rcoin s)" and ?ms = "take 32 (msg s)"
  let ?rho = "pk_rho k ?pk"
  let ?Af = "\<lambda>p. A_entry P ?rho (p div k) (p mod k)"
  let ?rh = "r_hat P eta1 ?rc"
  let ?e = "\<lambda>i. noise P eta2 ?rc (k + i)"
  let ?Th = "t_hat P ?pk"
  define s17 where "s17 = sampled_state P k eta1 eta2 s"
  define s18 where "s18 = s17\<lparr>loc_r := blocks ?rh k\<rparr>"
  define s19 where "s19 = s18\<lparr>loc_tmp := (if k = 0 then poly_zero
                          else polymul P (?Af ((k - 1) * k + (k - 1))) (?rh (k - 1))),
            loc_u := blocks (u_poly P k eta1 eta2 ?pk ?rc) k\<rparr>"
  have pk2: "k * 384 \<le> length ?pk" using pk by simp
  have nl: "\<forall>i<k. length (noise P eta1 ?rc i) = ntt_N"
    using ok by (simp add: length_noise)
  have Rl: "\<forall>j<k. length (?rh j) = ntt_N" using ok by (simp add: length_r_hat)
  have Al: "\<forall>p<k * k. length (?Af p) = ntt_N" using ok by (simp add: length_A_entry)
  have El: "\<forall>j<k. length (?e j) = ntt_N" using ok by (simp add: length_noise)
  have Tl: "\<forall>i<k. length (?Th i) = ntt_N" using ok pk2 by (simp add: length_t_hat)
  have 0: "encrypt_sampled P k eta1 eta2 s = Some s17"
    unfolding s17_def by (rule encrypt_sampled_eq [OF ok pk rcl])
  have r17: "loc_r s17 = blocks (noise P eta1 ?rc) k"
    by (simp add: s17_def sampled_state_def Let_def)
  have rh: "(\<lambda>i. ntt P (noise P eta1 ?rc i)) = ?rh"
    by (simp add: r_hat_def fun_eq_iff)
  have 1: "encrypt_ntt_r P k s17 = Some s18"
    using encrypt_ntt_r_eq [OF ok nl r17] by (simp only: s18_def rh)
  have A18: "A_prime s18 = blocks ?Af (k * k)"
    by (simp add: s18_def s17_def sampled_state_def Let_def)
  have R18: "loc_r s18 = blocks ?rh k" by (simp add: s18_def)
  have E18: "loc_e1 s18 = blocks ?e k"
    by (simp add: s18_def s17_def sampled_state_def Let_def)
  have 2: "encrypt_u P k s18 = Some s19"
    using encrypt_u_eq [OF ok A18 Al R18 Rl E18 El] by (simp only: u_poly_blocks s19_def)
  have T19: "t_prime s19 = blocks ?Th k"
    by (simp add: s19_def s18_def s17_def sampled_state_def Let_def)
  have R19: "loc_r s19 = blocks ?rh k" by (simp add: s19_def s18_def)
  have e2l: "length (loc_e2 s19) = ntt_N"
    using ok by (simp add: s19_def s18_def s17_def sampled_state_def Let_def length_noise)
  have tml: "length (loc_tmp s19) = ntt_N"
    using ok by (simp add: s19_def length_poly_zero prims_okD length_A_entry length_r_hat)
  have ms19: "32 \<le> length (msg s19)"
    using msl by (simp add: s19_def s18_def s17_def sampled_state_def Let_def)
  note 3 = encrypt_v_eq [OF ok T19 Tl R19 Rl e2l tml ms19]
  have F: "s19\<lparr>loc_tmp := (if k = 0 then loc_tmp s19 else polymul P (?Th (k - 1)) (?rh (k - 1))),
            loc_v := poly_add
               (poly_add (intt P (poly_sum (map (\<lambda>i. polymul P (?Th i) (?rh i)) [0..<k]))) (loc_e2 s19))
               (poly_decompress P 1 (decode P 1 (take 32 (msg s19)))),
            loc_m := poly_decompress P 1 (decode P 1 (take 32 (msg s19)))\<rparr> =
           computed_state P k eta1 eta2 s"
    by (rule enc_state.equality)
       (simp_all add: computed_state_def sampled_state_def Let_def s19_def s18_def s17_def
          v_poly_def)
  show ?thesis
    unfolding encrypt_computed_def by (simp only: 0 1 2 3 F Option.bind.bind_lunit)
qed

lemma length_poly_sum_map:
  "\<forall>j<k. length (f j) = ntt_N \<Longrightarrow> length (poly_sum (map f [0..<k])) = ntt_N"
  unfolding poly_sum_def
  by (rule length_foldl_pm [where k = k]) (simp_all add: length_poly_zero)

lemma length_u_poly:
  assumes ok: "prims_ok P"
  shows "length (u_poly P k eta1 eta2 pk rc i) = ntt_N"
proof -
  have "\<forall>j<k. length (polymul P (A_entry P (pk_rho k pk) i j) (r_hat P eta1 rc j)) = ntt_N"
    using ok by (simp add: prims_okD length_A_entry length_r_hat)
  then have "length (poly_sum (map (\<lambda>j. polymul P (A_entry P (pk_rho k pk) i j)
               (r_hat P eta1 rc j)) [0..<k])) = ntt_N"
    by (rule length_poly_sum_map)
  then show ?thesis
    using ok by (simp add: u_poly_def length_poly_add prims_okD length_noise)
qed

lemma length_v_poly:
  assumes ok: "prims_ok P" and pk: "k * 384 \<le> length pk" and ms: "length ms = 32"
  shows "length (v_poly P k eta1 eta2 pk ms rc) = ntt_N"
proof -
  have "\<forall>j<k. length (polymul P (t_hat P pk j) (r_hat P eta1 rc j)) = ntt_N"
    using ok pk by (simp add: prims_okD length_t_hat length_r_hat)
  then have "length (poly_sum (map (\<lambda>j. polymul P (t_hat P pk j)
               (r_hat P eta1 rc j)) [0..<k])) = ntt_N"
    by (rule length_poly_sum_map)
  moreover have "length (poly_decompress P 1 (decode P 1 ms)) = ntt_N"
    using ok ms by (simp add: prims_okD)
  ultimately show ?thesis
    using ok by (simp add: v_poly_def length_poly_add prims_okD length_noise)
qed

lemma length_ciphertext:
  assumes ok: "prims_ok P" and pk: "k * 384 \<le> length pk" and ms: "length ms = 32"
  shows "length (ciphertext P k eta1 eta2 du dv pk ms rc) = k * du * 32 + dv * 32"
proof -
  have "\<forall>i<k. length (encode P du (poly_compress P du (u_poly P k eta1 eta2 pk rc i))) = 32 * du"
    using ok by (simp add: prims_okD length_u_poly)
  then have "length (blocks (\<lambda>i. encode P du (poly_compress P du (u_poly P k eta1 eta2 pk rc i))) k)
             = k * (32 * du)"
    by (rule length_blocks)
  moreover have "length (encode P dv (poly_compress P dv (v_poly P k eta1 eta2 pk ms rc))) = 32 * dv"
    using ok by (simp add: prims_okD length_v_poly [OF ok pk ms])
  ultimately show ?thesis by (simp add: ciphertext_def ac_simps)
qed

lemma encrypt_from_eq:
  assumes ok: "prims_ok P" and pk: "k * 384 + 32 \<le> length (pubkey s)"
    and msl: "32 \<le> length (msg s)" and rcl: "32 \<le> length (rcoin s)"
    and encl: "k * du * 32 + dv * 32 \<le> length (enc s)"
  shows "encrypt_from P k eta1 eta2 du dv s = Some (final_state P k eta1 eta2 du dv s)"
proof -
  let ?pk = "pubkey s" and ?rc = "take 32 (rcoin s)" and ?ms = "take 32 (msg s)"
  let ?U = "u_poly P k eta1 eta2 ?pk ?rc"
  let ?V = "v_poly P k eta1 eta2 ?pk ?ms ?rc"
  let ?cb = "\<lambda>i. encode P du (poly_compress P du (?U i))"
  define s20 where "s20 = computed_state P k eta1 eta2 s"
  define s21 where "s21 = s20\<lparr>loc_u := blocks (\<lambda>i. poly_compress P du (?U i)) k,
            enc := blocks ?cb k @ drop (k * du * 32) (enc s)\<rparr>"
  have pk2: "k * 384 \<le> length ?pk" using pk by simp
  have msl': "length ?ms = 32" using msl by simp
  have Ul: "\<forall>i<k. length (?U i) = ntt_N" using ok by (simp add: length_u_poly)
  have Vl: "length ?V = ntt_N" by (rule length_v_poly [OF ok pk2 msl'])
  have lenE: "k * du * 32 \<le> length (enc s)" using encl by simp
  have 0: "encrypt_computed P k eta1 eta2 s = Some s20"
    unfolding s20_def by (rule encrypt_computed_eq [OF ok pk msl rcl])
  have S20: "s20\<lparr>loc_u := blocks ?U k, enc := enc s\<rparr> = s20"
    by (rule enc_state.equality)
       (simp_all add: s20_def computed_state_def sampled_state_def Let_def)
  have 1: "encrypt_pack_u P k du s20 = Some s21"
    using encrypt_pack_u_eq [OF ok Ul lenE, where s = s20] by (simp only: S20 s21_def)
  have cbl: "\<forall>i<k. length (?cb i) = 32 * du"
    using ok Ul by (simp add: prims_okD)
  have lenA: "length (blocks ?cb k) = k * du * 32"
    using length_blocks [OF cbl] by (simp add: ac_simps)
  have lenR: "32 * dv \<le> length (drop (k * du * 32) (enc s))"
    using encl by simp
  have S21: "s21\<lparr>loc_v := ?V, enc := blocks ?cb k @ drop (k * du * 32) (enc s)\<rparr> = s21"
    by (rule enc_state.equality)
       (simp_all add: s21_def s20_def computed_state_def sampled_state_def Let_def)
  have 2: "encrypt_pack_v P k du dv s21 =
    Some (s21\<lparr>loc_v := poly_compress P dv ?V,
            enc := blocks ?cb k @ encode P dv (poly_compress P dv ?V) @
                   drop (32 * dv) (drop (k * du * 32) (enc s))\<rparr>)"
    using encrypt_pack_v_eq [OF ok Vl lenA lenR, where s = s21] by (simp only: S21)
  have F: "s21\<lparr>loc_v := poly_compress P dv ?V,
            enc := blocks ?cb k @ encode P dv (poly_compress P dv ?V) @
                   drop (32 * dv) (drop (k * du * 32) (enc s))\<rparr> =
           final_state P k eta1 eta2 du dv s"
    by (rule enc_state.equality)
       (simp_all add: final_state_def Let_def s21_def s20_def ciphertext_def ac_simps)
  show ?thesis
    unfolding encrypt_from_def by (simp only: 0 1 2 F Option.bind.bind_lunit)
qed

lemma encrypt_eq:
  assumes ok: "prims_ok P" and pk: "k * 384 + 32 \<le> length pk"
    and msl: "32 \<le> length ms" and rcl: "32 \<le> length rc"
    and encl: "k * du * 32 + dv * 32 \<le> length ct"
  shows "encrypt P k eta1 eta2 du dv pk ms rc ct =
         Some (final_state P k eta1 eta2 du dv (enc_entry pk ms rc ct))"
  unfolding encrypt_def
  by (rule encrypt_from_eq [OF ok]) (simp_all add: enc_entry_def assms)

subsection \<open>encapsulate\<close>

lemma encapsulate_eq:
  assumes ok: "prims_ok P" and pk: "k * 384 + 32 \<le> length pk"
    and cl: "k * du * 32 + dv * 32 \<le> length c0"
  shows "encapsulate P k eta1 eta2 du dv pk c0 rng = Some (kem_result P k eta1 eta2 du dv pk c0 rng)"
proof -
  define m where "m = fst (random_data P rng 32)"
  define h_m where "h_m = sha3_256 P m"
  define h_pk where "h_pk = sha3_256 P (take (k * 12 * 32 + 32) pk)"
  define g where "g = sha3_512 P (h_m @ h_pk)"
  define c where "c = ciphertext P k eta1 eta2 du dv pk h_m (drop 32 g)"
  have ml: "length m = 32" using ok by (simp add: m_def prims_okD)
  have hml: "length h_m = 32" using ok by (simp add: h_m_def prims_okD)
  have hpl: "length h_pk = 32" using ok by (simp add: h_pk_def prims_okD)
  have gl: "length g = 64" using ok by (simp add: g_def prims_okD)
  have pk2: "k * 384 \<le> length pk" using pk by simp
  have clen: "length c = k * du * 32 + dv * 32"
    unfolding c_def by (rule length_ciphertext [OF ok pk2 hml])
  have hcl: "length (sha3_256 P c) = 32" using ok by (simp add: prims_okD)
  have E: "encrypt P k eta1 eta2 du dv pk (h_m @ h_pk) (drop 32 g) c0 =
           Some (final_state P k eta1 eta2 du dv (enc_entry pk (h_m @ h_pk) (drop 32 g) c0))"
    using hml hpl gl by (intro encrypt_eq [OF ok pk _ _ cl]) simp_all
  have Fe: "enc (final_state P k eta1 eta2 du dv (enc_entry pk (h_m @ h_pk) (drop 32 g) c0)) =
            c @ drop (k * du * 32 + dv * 32) c0"
    using hml gl
    by (simp add: final_state_def computed_state_def sampled_state_def Let_def enc_entry_def c_def)
  have Fp: "pubkey (final_state P k eta1 eta2 du dv (enc_entry pk (h_m @ h_pk) (drop 32 g) c0)) = pk"
    by (simp add: final_state_def computed_state_def sampled_state_def Let_def enc_entry_def)
  have 1: "write_at (replicate 32 (0::byte)) 0 m = Some m"
    using ml by (simp add: write_at_all)
  have 2: "read_at m 0 32 = Some m" using ml by (simp add: read_at_all)
  have 3: "write_at (replicate 64 (0::byte)) 0 h_m = Some (h_m @ replicate 32 0)"
    using hml by (simp add: write_at_def)
  have 4: "read_at pk 0 (k * 12 * 32 + 32) = Some (take (k * 12 * 32 + 32) pk)"
    using pk by (simp add: read_at_def)
  have 5: "write_at (h_m @ replicate 32 0) 32 h_pk = Some (h_m @ h_pk)"
    using hml hpl by (simp add: write_at_def)
  have 6: "read_at (h_m @ h_pk) 0 64 = Some (h_m @ h_pk)"
    using hml hpl by (simp add: read_at_all)
  have 7: "write_at (replicate 64 (0::byte)) 0 g = Some g"
    using gl by (simp add: write_at_all)
  have 8: "ptr_add g 32 = Some (drop 32 g)" using gl by (simp add: ptr_add_def)
  have 9: "read_at g 0 32 = Some (take 32 g)" using gl by (simp add: read_at_def)
  have 10: "write_at (replicate 64 (0::byte)) 0 (take 32 g) = Some (take 32 g @ replicate 32 0)"
    using gl by (simp add: write_at_def)
  have 11: "read_at (c @ drop (k * du * 32 + dv * 32) c0) 0 (k * du * 32 + dv * 32) = Some c"
    using clen by (simp add: read_at_def)
  have 12: "write_at (take 32 g @ replicate 32 0) 32 (sha3_256 P c) = Some (take 32 g @ sha3_256 P c)"
    using gl hcl by (simp add: write_at_def)
  have 13: "read_at (take 32 g @ sha3_256 P c) 0 64 = Some (take 32 g @ sha3_256 P c)"
    using gl hcl by (simp add: read_at_all)
  have R: "random_data P rng 32 = (m, snd (random_data P rng 32))"
    by (simp add: m_def)
  show ?thesis
    unfolding encapsulate_def kem_result_def Let_def
    apply (subst R)
    apply (simp only: prod.case m_def [symmetric] h_m_def [symmetric] 1 2 Option.bind.bind_lunit)
    apply (simp only: 3 4 Option.bind.bind_lunit h_pk_def [symmetric] 5 6 g_def [symmetric] 7 8 E
        Fe Fp 9 10 11 c_def [symmetric] 12 13)
    done
qed

subsection \<open>The instance\<close>

lemma demo_ok: "prims_ok demo_prims"
  by (simp add: prims_ok_def demo_prims_def is_poly_def const_poly_def)

lemma demo_sel:
  "sha3_256 demo_prims x = replicate 32 (first_byte x + 1)"
  "sha3_512 demo_prims x = replicate 64 (first_byte x + 2)"
  "shake128_hash demo_prims x = x"
  "shake256_hash demo_prims x = x"
  "shake256_read demo_prims h n = (replicate n (byte_at h 32), h)"
  "random_data demo_prims s n = (replicate n (s mod 16), s + 1)"
  "parse demo_prims g = const_poly (byte_at g 32)"
  "cbd demo_prims eta bs = const_poly (first_byte bs)"
  "decode demo_prims l bs = const_poly (first_byte bs)"
  "encode demo_prims l p = replicate (32 * l) (first_coeff p)"
  "poly_compress demo_prims d p = p"
  "poly_decompress demo_prims d p = p"
  "ntt demo_prims p = p"
  "intt demo_prims p = p"
  "polymul demo_prims a b = replicate ntt_N 0"
  by (simp_all add: demo_prims_def)

lemma first_byte_replicate: "0 < n \<Longrightarrow> first_byte (replicate n b) = b"
  by (cases n) (simp_all add: first_byte_def)

lemma first_coeff_replicate: "0 < n \<Longrightarrow> first_coeff (replicate n c) = ucast c"
  by (cases n) (simp_all add: first_coeff_def)

lemma poly_add_replicate:
  "poly_add (replicate n a) (replicate n b) = replicate n (ff_add a b)"
  by (simp add: poly_add_def)

lemma ff_add_0: "ff_add 0 0 = 0"
  by (simp add: ff_add_def ff_q_def)

lemma demo_poly_sum:
  "poly_sum (map (\<lambda>i. replicate ntt_N 0) [0..<k]) = replicate ntt_N 0"
  by (induction k) (simp_all add: poly_sum_def poly_zero_def poly_add_replicate ff_add_0)

subsection \<open>Reading the results\<close>

lemma unat_byte_of_nat: "n < 256 \<Longrightarrow> unat (of_nat n :: byte) = n"
  by (simp add: unat_of_nat)

lemma unat_ff_add: "unat (ff_add a b) = (unat a + unat b) mod 3329"
proof -
  have "(unat a + unat b) mod 3329 < (3329::nat)" by simp
  then have "(unat a + unat b) mod 3329 < 2 ^ LENGTH(16)" by simp
  then show ?thesis
    unfolding ff_add_def ff_q_def by (intro of_nat_inverse [OF refl])
qed

lemma final_fields:
  "pubkey (final_state P k eta1 eta2 du dv s) = pubkey s"
  "msg (final_state P k eta1 eta2 du dv s) = msg s"
  "rcoin (final_state P k eta1 eta2 du dv s) = rcoin s"
  "enc (final_state P k eta1 eta2 du dv s) =
     ciphertext P k eta1 eta2 du dv (pubkey s) (take 32 (msg s)) (take 32 (rcoin s)) @
     drop (k * du * 32 + dv * 32) (enc s)"
  "A_prime (final_state P k eta1 eta2 du dv s) =
     blocks (\<lambda>p. A_entry P (pk_rho k (pubkey s)) (p div k) (p mod k)) (k * k)"
  "prf_in (final_state P k eta1 eta2 du dv s) = take 32 (rcoin s) @ [of_nat (2 * k)]"
  "prf_out_eta2 (final_state P k eta1 eta2 du dv s) =
     prf_bytes P (take 32 (rcoin s)) (of_nat (2 * k)) (64 * eta2)"
  "loc_e2 (final_state P k eta1 eta2 du dv s) = noise P eta2 (take 32 (rcoin s)) (2 * k)"
  "loc_m (final_state P k eta1 eta2 du dv s) = poly_decompress P 1 (decode P 1 (take 32 (msg s)))"
  by (simp_all add: final_state_def computed_state_def sampled_state_def Let_def)

lemma computed_fields:
  "t_prime (computed_state P k eta1 eta2 s) = blocks (t_hat P (pubkey s)) k"
  "loc_r (computed_state P k eta1 eta2 s) = blocks (r_hat P eta1 (take 32 (rcoin s))) k"
  "loc_e2 (computed_state P k eta1 eta2 s) = noise P eta2 (take 32 (rcoin s)) (2 * k)"
  "loc_u (computed_state P k eta1 eta2 s) =
     blocks (u_poly P k eta1 eta2 (pubkey s) (take 32 (rcoin s))) k"
  "loc_v (computed_state P k eta1 eta2 s) =
     v_poly P k eta1 eta2 (pubkey s) (take 32 (msg s)) (take 32 (rcoin s))"
  by (simp_all add: computed_state_def sampled_state_def Let_def)

lemma sampled_fields:
  "loc_r (sampled_state P k eta1 eta2 s) = blocks (noise P eta1 (take 32 (rcoin s))) k"
  "loc_e1 (sampled_state P k eta1 eta2 s) = blocks (\<lambda>i. noise P eta2 (take 32 (rcoin s)) (k + i)) k"
  "loc_e2 (sampled_state P k eta1 eta2 s) = noise P eta2 (take 32 (rcoin s)) (2 * k)"
  "loc_N (sampled_state P k eta1 eta2 s) = of_nat (2 * k)"
  by (simp_all add: sampled_state_def Let_def)

lemma entry_fields:
  "pubkey (enc_entry pk ms rc ct) = pk" "msg (enc_entry pk ms rc ct) = ms"
  "rcoin (enc_entry pk ms rc ct) = rc" "enc (enc_entry pk ms rc ct) = ct"
  by (simp_all add: enc_entry_def)

lemma kem_fields:
  "kem_cipher (kem_result P k eta1 eta2 du dv pk c0 rng) =
     ciphertext P k eta1 eta2 du dv pk (sha3_256 P (fst (random_data P rng 32)))
       (drop 32 (sha3_512 P (sha3_256 P (fst (random_data P rng 32)) @
          sha3_256 P (take (k * 12 * 32 + 32) pk)))) @
     drop (k * du * 32 + dv * 32) c0"
  "kem_m (kem_result P k eta1 eta2 du dv pk c0 rng) = fst (random_data P rng 32)"
  "kem_g_in (kem_result P k eta1 eta2 du dv pk c0 rng) =
     sha3_256 P (fst (random_data P rng 32)) @ sha3_256 P (take (k * 12 * 32 + 32) pk)"
  "kem_g_out (kem_result P k eta1 eta2 du dv pk c0 rng) =
     sha3_512 P (sha3_256 P (fst (random_data P rng 32)) @ sha3_256 P (take (k * 12 * 32 + 32) pk))"
  "kem_rng (kem_result P k eta1 eta2 du dv pk c0 rng) = snd (random_data P rng 32)"
  "kem_pubkey (kem_result P k eta1 eta2 du dv pk c0 rng) = pk"
  by (simp_all add: kem_result_def Let_def)

lemma kem_hasher_field:
  "kem_hasher (kem_result P k eta1 eta2 du dv pk c0 rng) =
     shake256_hash P (kem_kdf_in (kem_result P k eta1 eta2 du dv pk c0 rng))"
  "kem_kdf_in (kem_result P k eta1 eta2 du dv pk c0 rng) =
     take 32 (kem_g_out (kem_result P k eta1 eta2 du dv pk c0 rng)) @
     sha3_256 P (take (k * du * 32 + dv * 32) (kem_cipher (kem_result P k eta1 eta2 du dv pk c0 rng)))"
  if "prims_ok P" "k * 384 \<le> length pk"
proof -
  have "length (ciphertext P k eta1 eta2 du dv pk (sha3_256 P (fst (random_data P rng 32)))
       (drop 32 (sha3_512 P (sha3_256 P (fst (random_data P rng 32)) @
          sha3_256 P (take (k * 12 * 32 + 32) pk))))) = k * du * 32 + dv * 32"
    using that by (intro length_ciphertext) (simp_all add: prims_okD)
  then show
    "kem_hasher (kem_result P k eta1 eta2 du dv pk c0 rng) =
     shake256_hash P (kem_kdf_in (kem_result P k eta1 eta2 du dv pk c0 rng))"
    "kem_kdf_in (kem_result P k eta1 eta2 du dv pk c0 rng) =
     take 32 (kem_g_out (kem_result P k eta1 eta2 du dv pk c0 rng)) @
     sha3_256 P (take (k * du * 32 + dv * 32) (kem_cipher (kem_result P k eta1 eta2 du dv pk c0 rng)))"
    by (simp_all add: kem_result_def Let_def)
qed

lemma ntt_N_pos: "0 < ntt_N"
  by (simp add: ntt_N_def)

lemma demo_noise:
  "0 < eta \<Longrightarrow> length rc = 32 \<Longrightarrow> noise demo_prims eta rc n = const_poly (of_nat n)"
  by (simp add: noise_def prf_bytes_def demo_sel first_byte_replicate byte_at_def nth_append)

lemma demo_v_poly:
  assumes "0 < eta2" "length rc = 32"
  shows "v_poly demo_prims k eta1 eta2 pk ms rc =
         replicate ntt_N (ff_add (ff_add 0 (ucast (of_nat (2 * k) :: byte))) (ucast (first_byte ms)))"
  using assms
  by (simp add: v_poly_def demo_sel demo_poly_sum demo_noise const_poly_def poly_add_replicate)

lemma demo_last_ciphertext:
  "0 < dv \<Longrightarrow> last (ciphertext demo_prims k eta1 eta2 du dv pk ms rc) =
     first_coeff (v_poly demo_prims k eta1 eta2 pk ms rc)"
  by (simp add: ciphertext_def demo_sel)

lemma demo_last_768:
  assumes "length rc = 32"
  shows "last (ciphertext demo_prims 2 3 2 10 4 pk ms rc) =
         ucast (ff_add (ff_add 0 (ucast (4 :: byte))) (ucast (first_byte ms)))"
  using assms by (simp add: demo_last_ciphertext demo_v_poly first_coeff_replicate ntt_N_pos)

lemma poly_at_blocks:
  "\<forall>i<k. length (h i) = ntt_N \<Longrightarrow> i < k \<Longrightarrow> poly_at i (blocks h k) = h i"
  unfolding poly_at_def by (rule take_drop_blocks)

lemma pk_rho_exact: "length pk = k * 12 * 32 + 32 \<Longrightarrow> pk_rho k pk = drop (k * 12 * 32) pk"
  by (simp add: pk_rho_def)

lemma noise_unfold:
  "noise P eta rc n =
   cbd P eta (fst (shake256_read P (shake256_hash P (rc @ [of_nat n])) (64 * eta)))"
  by (simp add: noise_def prf_bytes_def)

lemma take_drop_bytes_blocks:
  assumes "\<forall>i<k. length (h i) = m" "i < k"
  shows "take m (drop (i * m) (blocks h k @ rest)) = h i"
proof -
  have "i * m + m \<le> length (blocks h k)"
    using assms by (rule length_blocks_le)
  then have "take m (drop (i * m) (blocks h k @ rest)) = take m (drop (i * m) (blocks h k))"
    by simp
  then show ?thesis using take_drop_blocks [OF assms] by simp
qed

lemma computed_fields_more:
  "A_prime (computed_state P k eta1 eta2 s) =
     blocks (\<lambda>p. A_entry P (pk_rho k (pubkey s)) (p div k) (p mod k)) (k * k)"
  "loc_e1 (computed_state P k eta1 eta2 s) =
     blocks (\<lambda>i. noise P eta2 (take 32 (rcoin s)) (k + i)) k"
  by (simp_all add: computed_state_def sampled_state_def Let_def)

lemma final_fields_more:
  "t_prime (final_state P k eta1 eta2 du dv s) = blocks (t_hat P (pubkey s)) k"
  "xof_in (final_state P k eta1 eta2 du dv s) =
     pk_rho k (pubkey s) @ (if k = 0 then [0, 0] else [of_nat (k - 1), of_nat (k - 1)])"
  "loc_N (final_state P k eta1 eta2 du dv s) = of_nat (2 * k)"
  "prf_out_eta1 (final_state P k eta1 eta2 du dv s) =
     (if k = 0 then replicate (64 * eta1) 0
      else prf_bytes P (take 32 (rcoin s)) (of_nat (k - 1)) (64 * eta1))"
  "loc_r (final_state P k eta1 eta2 du dv s) = blocks (r_hat P eta1 (take 32 (rcoin s))) k"
  "loc_e1 (final_state P k eta1 eta2 du dv s) =
     blocks (\<lambda>i. noise P eta2 (take 32 (rcoin s)) (k + i)) k"
  "loc_u (final_state P k eta1 eta2 du dv s) =
     blocks (\<lambda>i. poly_compress P du (u_poly P k eta1 eta2 (pubkey s) (take 32 (rcoin s)) i)) k"
  "loc_tmp (final_state P k eta1 eta2 du dv s) =
     (if k = 0 then poly_zero
      else polymul P (t_hat P (pubkey s) (k - 1)) (r_hat P eta1 (take 32 (rcoin s)) (k - 1)))"
  "loc_v (final_state P k eta1 eta2 du dv s) =
     poly_compress P dv
       (v_poly P k eta1 eta2 (pubkey s) (take 32 (msg s)) (take 32 (rcoin s)))"
  by (simp_all add: final_state_def computed_state_def sampled_state_def Let_def)

lemma first_byte_replicate_append: "0 < n \<Longrightarrow> first_byte (replicate n b @ xs) = b"
  by (cases n) (simp_all add: first_byte_def)

section \<open>Properties of encrypt and encapsulate\<close>

text \<open>
  C1 (as amended). In \<^verbatim>\<open>encapsulate\<close> the ciphertext is produced by CPA-encrypting the
  SHA3-256 hash of the 32 bytes drawn from the random number generator, not the drawn
  bytes themselves: for every public key \<open>pk\<close> of \<open>k * 384 + 32\<close> bytes, the ciphertext
  returned equals the output of \<open>encrypt\<close> on \<open>pk\<close>, \<open>H(m)\<close> and \<open>r\<close>, where \<open>m\<close>
  is the 32 bytes drawn and \<open>r\<close> is the last 32 bytes of \<open>G(H(m) \<parallel> H(pk))\<close>.
\<close>

theorem encapsulate_encrypts_hashed_message:
  assumes "prims_ok P" and "length pk = k * 12 * 32 + 32"
    and "length c0 = k * du * 32 + dv * 32"
  shows "\<exists>K E. encapsulate P k eta1 eta2 du dv pk c0 rng = Some K \<and>
           encrypt P k eta1 eta2 du dv pk
             (sha3_256 P (fst (random_data P rng 32)))
             (drop 32 (sha3_512 P (sha3_256 P (fst (random_data P rng 32)) @ sha3_256 P pk)))
             c0 = Some E \<and>
           kem_cipher K = enc E"
proof -
  let ?m = "fst (random_data P rng 32)"
  let ?r = "drop 32 (sha3_512 P (sha3_256 P ?m @ sha3_256 P pk))"
  have pk: "k * 384 + 32 \<le> length pk" using assms(2) by simp
  have cl: "k * du * 32 + dv * 32 \<le> length c0" using assms(3) by simp
  have 1: "encapsulate P k eta1 eta2 du dv pk c0 rng = Some (kem_result P k eta1 eta2 du dv pk c0 rng)"
    by (rule encapsulate_eq [OF assms(1) pk cl])
  have 2: "encrypt P k eta1 eta2 du dv pk (sha3_256 P ?m) ?r c0 =
           Some (final_state P k eta1 eta2 du dv (enc_entry pk (sha3_256 P ?m) ?r c0))"
    using assms(1) by (intro encrypt_eq [OF assms(1) pk _ _ cl]) (simp_all add: prims_okD)
  have 3: "kem_cipher (kem_result P k eta1 eta2 du dv pk c0 rng) =
           enc (final_state P k eta1 eta2 du dv (enc_entry pk (sha3_256 P ?m) ?r c0))"
    using assms by (simp add: kem_fields final_fields entry_fields prims_okD)
  show ?thesis using 1 2 3 by blast
qed

theorem encapsulate_encrypts_hashed_message_witness:
  "\<exists>K E. encapsulate demo_prims 2 3 2 10 4 demo_pk demo_ct 7 = Some K \<and>
     encrypt demo_prims 2 3 2 10 4 demo_pk
       (sha3_256 demo_prims (fst (random_data demo_prims 7 32)))
       (drop 32 (sha3_512 demo_prims (sha3_256 demo_prims (fst (random_data demo_prims 7 32)) @
          sha3_256 demo_prims demo_pk)))
       demo_ct = Some E \<and>
     kem_cipher K = enc E"
  using encapsulate_encrypts_hashed_message [OF demo_ok, of demo_pk 2 demo_ct 10 4 3 2 7]
  by (simp add: demo_pk_def demo_ct_def)

text \<open>
  With the drawn bytes themselves as the message the ciphertext is a different one: on
  the instance above the last byte is 11 instead of 12.
\<close>

theorem encapsulate_raw_message_counterexample:
  "encapsulate demo_prims 2 3 2 10 4 demo_pk demo_ct 7 \<noteq> None \<and>
   encrypt demo_prims 2 3 2 10 4 demo_pk
     (fst (random_data demo_prims 7 32))
     (drop 32 (sha3_512 demo_prims (sha3_256 demo_prims (fst (random_data demo_prims 7 32)) @
        sha3_256 demo_prims demo_pk)))
     demo_ct \<noteq> None \<and>
   map_option kem_cipher (encapsulate demo_prims 2 3 2 10 4 demo_pk demo_ct 7) \<noteq>
   map_option enc
     (encrypt demo_prims 2 3 2 10 4 demo_pk
        (fst (random_data demo_prims 7 32))
        (drop 32 (sha3_512 demo_prims (sha3_256 demo_prims (fst (random_data demo_prims 7 32)) @
           sha3_256 demo_prims demo_pk)))
        demo_ct)"
proof -
  let ?m = "fst (random_data demo_prims 7 32)"
  let ?r = "drop 32 (sha3_512 demo_prims (sha3_256 demo_prims ?m @ sha3_256 demo_prims demo_pk))"
  have 1: "encapsulate demo_prims 2 3 2 10 4 demo_pk demo_ct 7 =
           Some (kem_result demo_prims 2 3 2 10 4 demo_pk demo_ct 7)"
    by (rule encapsulate_eq [OF demo_ok]) (simp_all add: demo_pk_def demo_ct_def)
  have 2: "encrypt demo_prims 2 3 2 10 4 demo_pk ?m ?r demo_ct =
           Some (final_state demo_prims 2 3 2 10 4 (enc_entry demo_pk ?m ?r demo_ct))"
    by (rule encrypt_eq [OF demo_ok]) (simp_all add: demo_pk_def demo_ct_def demo_sel)
  have rl: "length ?r = 32" by (simp add: demo_sel)
  have a: "last (kem_cipher (kem_result demo_prims 2 3 2 10 4 demo_pk demo_ct 7)) = 12"
    using rl
    by (simp add: kem_fields demo_ct_def demo_pk_def demo_last_768 [OF rl [unfolded demo_pk_def]])
       (simp add: demo_sel first_byte_replicate ff_add_def ff_q_def)
  have b: "last (enc (final_state demo_prims 2 3 2 10 4 (enc_entry demo_pk ?m ?r demo_ct))) = 11"
    using rl
    by (simp add: final_fields entry_fields demo_ct_def demo_pk_def
          demo_last_768 [OF rl [unfolded demo_pk_def]])
       (simp add: demo_sel first_byte_replicate ff_add_def ff_q_def)
  have "kem_cipher (kem_result demo_prims 2 3 2 10 4 demo_pk demo_ct 7) \<noteq>
        enc (final_state demo_prims 2 3 2 10 4 (enc_entry demo_pk ?m ?r demo_ct))"
    using a b by auto
  then show ?thesis by (simp only: 1 2) simp
qed

text \<open>
  C2 (as amended). For every \<open>i\<close>, \<open>j\<close> in \<open>[0, k)\<close>, the matrix entry regenerated inside
  \<open>encrypt\<close> at row \<open>i\<close> and column \<open>j\<close> (the polynomial at \<open>A_prime + (i * k + j) * N\<close>,
  which is multiplied with \<open>r[j]\<close> for \<open>u[i]\<close>) is the parse of a SHAKE128 object that
  absorbed the 34 bytes \<open>\<rho> \<parallel> i \<parallel> j\<close>: the row index \<open>i\<close> is in byte 32 and the column
  index \<open>j\<close> in byte 33 of the XOF input.
\<close>

theorem matrix_entry_seed:
  assumes "prims_ok P" and "length pk = k * 12 * 32 + 32" and "length ms = 32"
    and "length rc = 32" and "length ct = k * du * 32 + dv * 32" and "i < k" and "j < k"
  shows "\<exists>c s. encrypt_computed P k eta1 eta2 (enc_entry pk ms rc ct) = Some c \<and>
           encrypt P k eta1 eta2 du dv pk ms rc ct = Some s \<and>
           poly_at (i * k + j) (A_prime s) =
             parse P (shake128_hash P (drop (k * 12 * 32) pk @ [of_nat i, of_nat j])) \<and>
           length (drop (k * 12 * 32) pk @ [of_nat i, of_nat j :: byte]) = 34 \<and>
           (drop (k * 12 * 32) pk @ [of_nat i, of_nat j :: byte]) ! 32 = of_nat i \<and>
           (drop (k * 12 * 32) pk @ [of_nat i, of_nat j :: byte]) ! 33 = of_nat j \<and>
           A_prime c = A_prime s \<and>
           poly_at i (loc_u c) =
             poly_add
               (intt P (poly_sum
                  (map (\<lambda>j. polymul P (poly_at (i * k + j) (A_prime s)) (poly_at j (loc_r c)))
                     [0..<k])))
               (poly_at i (loc_e1 c))"
proof -
  let ?e = "enc_entry pk ms rc ct"
  let ?c = "computed_state P k eta1 eta2 ?e"
  let ?s = "final_state P k eta1 eta2 du dv ?e"
  let ?rho = "pk_rho k pk"
  let ?Af = "\<lambda>p. A_entry P ?rho (p div k) (p mod k)"
  have 0: "encrypt_computed P k eta1 eta2 ?e = Some ?c"
    using assms by (intro encrypt_computed_eq) (simp_all add: entry_fields)
  have 1: "encrypt P k eta1 eta2 du dv pk ms rc ct = Some ?s"
    using assms by (intro encrypt_eq) simp_all
  have Al: "\<forall>p<k * k. length (?Af p) = ntt_N"
    using assms(1) by (simp add: length_A_entry)
  have Rl: "\<forall>j<k. length (r_hat P eta1 rc j) = ntt_N"
    using assms(1) by (simp add: length_r_hat)
  have El: "\<forall>i<k. length (noise P eta2 rc (k + i)) = ntt_N"
    using assms(1) by (simp add: length_noise)
  have Ul: "\<forall>i<k. length (u_poly P k eta1 eta2 pk rc i) = ntt_N"
    using assms(1) by (simp add: length_u_poly)
  have As: "A_prime ?s = blocks ?Af (k * k)"
    by (simp add: final_fields entry_fields)
  have ent: "poly_at (i * k + j') (A_prime ?s) = A_entry P ?rho i j'" if "j' < k" for j'
  proof -
    have "i * k + j' < k * k" using assms(6) that by (rule idx_lt)
    with Al have "poly_at (i * k + j') (blocks ?Af (k * k)) = ?Af (i * k + j')"
      by (rule poly_at_blocks)
    then show ?thesis using that by (simp add: As)
  qed
  have 2: "poly_at (i * k + j) (A_prime ?s) =
      parse P (shake128_hash P (drop (k * 12 * 32) pk @ [of_nat i, of_nat j]))"
    using ent [OF assms(7)]
    by (simp only: A_entry_def xof_seed_def pk_rho_exact [OF assms(2)])
  have 3: "length (drop (k * 12 * 32) pk) = 32" using assms(2) by simp
  have 4: "A_prime ?c = A_prime ?s"
    by (simp add: computed_fields_more final_fields)
  have r: "\<forall>j'<k. poly_at j' (loc_r ?c) = r_hat P eta1 rc j'"
    using Rl assms(4) by (simp add: computed_fields entry_fields poly_at_blocks)
  have e: "poly_at i (loc_e1 ?c) = noise P eta2 rc (k + i)"
    using poly_at_blocks [OF El assms(6)] assms(4)
    by (simp add: computed_fields_more entry_fields)
  have u: "poly_at i (loc_u ?c) = u_poly P k eta1 eta2 pk rc i"
    using poly_at_blocks [OF Ul assms(6)] assms(4)
    by (simp add: computed_fields entry_fields)
  have m: "map (\<lambda>j. polymul P (poly_at (i * k + j) (A_prime ?s)) (poly_at j (loc_r ?c))) [0..<k] =
           map (\<lambda>j. polymul P (A_entry P ?rho i j) (r_hat P eta1 rc j)) [0..<k]"
    using r ent by (intro map_cong) simp_all
  have 5: "poly_at i (loc_u ?c) =
             poly_add
               (intt P (poly_sum
                  (map (\<lambda>j. polymul P (poly_at (i * k + j) (A_prime ?s)) (poly_at j (loc_r ?c)))
                     [0..<k])))
               (poly_at i (loc_e1 ?c))"
    unfolding m e u by (simp only: u_poly_def)
  have 6: "(drop (k * 12 * 32) pk @ [of_nat i, of_nat j :: byte]) ! 32 = of_nat i"
    "(drop (k * 12 * 32) pk @ [of_nat i, of_nat j :: byte]) ! 33 = of_nat j"
    "length (drop (k * 12 * 32) pk @ [of_nat i, of_nat j :: byte]) = 34"
    using 3 by (simp_all add: nth_append)
  show ?thesis
    using 0 1 2 4 5 6 by blast
qed

theorem matrix_entry_seed_witness:
  "\<exists>s. encrypt demo_prims 2 3 2 10 4 demo_pk demo_ms demo_rc demo_ct = Some s \<and>
     poly_at (0 * 2 + 1) (A_prime s) =
       parse demo_prims (shake128_hash demo_prims (drop (2 * 12 * 32) demo_pk @ [of_nat 0, of_nat 1]))"
proof -
  have a: "length demo_pk = 2 * 12 * 32 + 32" "length demo_ms = 32" "length demo_rc = 32"
    "length demo_ct = 2 * 10 * 32 + 4 * 32" "(0::nat) < 2" "(1::nat) < 2"
    by (simp_all add: demo_pk_def demo_ms_def demo_rc_def demo_ct_def)
  from matrix_entry_seed [OF demo_ok a, of 3 2]
  show ?thesis by blast
qed

text \<open>
  With the column index in byte 32 and the row index in byte 33 the entry is a different
  one: on the instance above the entry at row 0 and column 1 is the parse of the object
  seeded with \<open>\<rho> \<parallel> 0 \<parallel> 1\<close>, and the object seeded with \<open>\<rho> \<parallel> 1 \<parallel> 0\<close> parses to another
  polynomial.
\<close>

theorem matrix_entry_transposed_counterexample:
  "map_option (poly_at (0 * 2 + 1))
     (map_option A_prime (encrypt demo_prims 2 3 2 10 4 demo_pk demo_ms demo_rc demo_ct)) =
   Some (parse demo_prims (shake128_hash demo_prims (drop (2 * 12 * 32) demo_pk @ [of_nat 0, of_nat 1]))) \<and>
   parse demo_prims (shake128_hash demo_prims (drop (2 * 12 * 32) demo_pk @ [of_nat 0, of_nat 1])) \<noteq>
   parse demo_prims (shake128_hash demo_prims (drop (2 * 12 * 32) demo_pk @ [of_nat 1, of_nat 0]))"
proof -
  have i: "(0::nat) < 2" and j: "(1::nat) < 2" by simp_all
  have 1: "encrypt demo_prims 2 3 2 10 4 demo_pk demo_ms demo_rc demo_ct =
           Some (final_state demo_prims 2 3 2 10 4 (enc_entry demo_pk demo_ms demo_rc demo_ct))"
    by (rule encrypt_eq [OF demo_ok])
       (simp_all add: demo_pk_def demo_ms_def demo_rc_def demo_ct_def)
  let ?Af = "\<lambda>p. A_entry demo_prims (pk_rho 2 demo_pk) (p div 2) (p mod 2)"
  have Al: "\<forall>p<2 * 2. length (?Af p) = ntt_N"
    using demo_ok by (simp add: length_A_entry)
  have "poly_at (0 * 2 + 1) (blocks ?Af (2 * 2)) = ?Af (0 * 2 + 1)"
    using Al by (rule poly_at_blocks) simp
  then have 2: "poly_at (0 * 2 + 1)
      (A_prime (final_state demo_prims 2 3 2 10 4 (enc_entry demo_pk demo_ms demo_rc demo_ct))) =
      parse demo_prims (shake128_hash demo_prims (drop (2 * 12 * 32) demo_pk @ [of_nat 0, of_nat 1]))"
    by (simp add: final_fields entry_fields A_entry_def xof_seed_def pk_rho_def demo_pk_def)
  have 3: "parse demo_prims (shake128_hash demo_prims (drop (2 * 12 * 32) demo_pk @ [of_nat 0, of_nat 1])) \<noteq>
           parse demo_prims (shake128_hash demo_prims (drop (2 * 12 * 32) demo_pk @ [of_nat 1, of_nat 0]))"
    by (simp add: demo_sel demo_pk_def byte_at_def nth_append const_poly_def ntt_N_def)
  show ?thesis
    using 2 3 by (simp only: 1 option.map) simp
qed

text \<open>
  C3. For every \<open>(pk, msg, rcoin)\<close>, \<open>encrypt\<close> samples its noise in this order: first
  the \<open>k\<close> polynomials of \<open>r\<close>, each the \<open>CBD\<close> with \<open>eta1\<close> of the \<open>64 * eta1\<close> bytes
  read from a SHAKE256 object that absorbed \<open>rcoin \<parallel> N\<close>, then the \<open>k\<close> polynomials of
  \<open>e1\<close> with \<open>eta2\<close>, then the polynomial \<open>e2\<close> with \<open>eta2\<close>. The one-byte counter \<open>N\<close>
  starts at 0 and goes up by one from each polynomial to the next, so the polynomials
  are sampled with the counter values \<open>0, \<dots>, 2 * k\<close> in this order, \<open>N\<close> is \<open>2 * k\<close> at
  line 118, and for \<open>k \<le> 4\<close> the counter never wraps modulo 256: every counter byte
  reads back as the number of the polynomial.
\<close>

theorem noise_sampling_order:
  assumes "prims_ok P" and "length pk = k * 12 * 32 + 32" and "length rc = 32" and "k \<le> 4"
  shows "\<exists>s. encrypt_sampled P k eta1 eta2 (enc_entry pk ms rc ct) = Some s \<and>
           (\<forall>i<k. poly_at i (loc_r s) =
                    cbd P eta1 (fst (shake256_read P (shake256_hash P (rc @ [of_nat i])) (64 * eta1))) \<and>
                  unat (of_nat i :: byte) = i) \<and>
           (\<forall>i<k. poly_at i (loc_e1 s) =
                    cbd P eta2 (fst (shake256_read P (shake256_hash P (rc @ [of_nat (k + i)])) (64 * eta2))) \<and>
                  unat (of_nat (k + i) :: byte) = k + i) \<and>
           loc_e2 s =
             cbd P eta2 (fst (shake256_read P (shake256_hash P (rc @ [of_nat (2 * k)])) (64 * eta2))) \<and>
           unat (of_nat (2 * k) :: byte) = 2 * k \<and>
           loc_N s = of_nat (2 * k)"
proof -
  let ?s = "sampled_state P k eta1 eta2 (enc_entry pk ms rc ct)"
  have 1: "encrypt_sampled P k eta1 eta2 (enc_entry pk ms rc ct) = Some ?s"
    using assms by (intro encrypt_sampled_eq) (simp_all add: entry_fields)
  have rl: "\<forall>i<k. length (noise P eta1 rc i) = ntt_N"
    using assms(1) by (simp add: length_noise)
  have el: "\<forall>i<k. length (noise P eta2 rc (k + i)) = ntt_N"
    using assms(1) by (simp add: length_noise)
  have r: "\<forall>i<k. poly_at i (loc_r ?s) = noise P eta1 rc i"
    using assms(3) rl by (simp add: sampled_fields entry_fields poly_at_blocks)
  have e: "\<forall>i<k. poly_at i (loc_e1 ?s) = noise P eta2 rc (k + i)"
    using assms(3) poly_at_blocks [OF el] by (simp add: sampled_fields entry_fields)
  have e2: "loc_e2 ?s = noise P eta2 rc (2 * k)"
    using assms(3) by (simp add: sampled_fields entry_fields)
  have N: "loc_N ?s = of_nat (2 * k)"
    by (simp add: sampled_fields)
  have u1: "\<forall>i<k. unat (of_nat i :: byte) = i"
    using assms(4) by (intro allI impI unat_byte_of_nat) simp
  have u2: "\<forall>i<k. unat (of_nat (k + i) :: byte) = k + i"
    using assms(4) by (intro allI impI unat_byte_of_nat) simp
  have u3: "unat (of_nat (2 * k) :: byte) = 2 * k"
    using assms(4) by (intro unat_byte_of_nat) simp
  show ?thesis
    using 1 r e e2 N u1 u2 u3 by (simp only: noise_unfold) blast
qed

theorem noise_sampling_order_witness:
  "\<exists>s. encrypt_sampled demo_prims 2 3 2 (enc_entry demo_pk demo_ms demo_rc demo_ct) = Some s \<and>
     poly_at 1 (loc_r s) =
       cbd demo_prims 3 (fst (shake256_read demo_prims (shake256_hash demo_prims (demo_rc @ [1])) (64 * 3))) \<and>
     poly_at 1 (loc_e1 s) =
       cbd demo_prims 2 (fst (shake256_read demo_prims (shake256_hash demo_prims (demo_rc @ [3])) (64 * 2))) \<and>
     loc_e2 s =
       cbd demo_prims 2 (fst (shake256_read demo_prims (shake256_hash demo_prims (demo_rc @ [4])) (64 * 2))) \<and>
     loc_N s = 4"
proof -
  have a: "length demo_pk = 2 * 12 * 32 + 32" "length demo_rc = 32" "(2::nat) \<le> 4"
    by (simp_all add: demo_pk_def demo_rc_def)
  from noise_sampling_order [OF demo_ok a, of 3 2 demo_ms demo_ct]
  obtain s where s: "encrypt_sampled demo_prims 2 3 2 (enc_entry demo_pk demo_ms demo_rc demo_ct) = Some s"
    and r: "\<forall>i<2. poly_at i (loc_r s) =
       cbd demo_prims 3 (fst (shake256_read demo_prims (shake256_hash demo_prims (demo_rc @ [of_nat i])) (64 * 3))) \<and>
       unat (of_nat i :: byte) = i"
    and e: "\<forall>i<2. poly_at i (loc_e1 s) =
       cbd demo_prims 2 (fst (shake256_read demo_prims (shake256_hash demo_prims (demo_rc @ [of_nat (2 + i)])) (64 * 2))) \<and>
       unat (of_nat (2 + i) :: byte) = 2 + i"
    and e2: "loc_e2 s =
       cbd demo_prims 2 (fst (shake256_read demo_prims (shake256_hash demo_prims (demo_rc @ [of_nat (2 * 2)])) (64 * 2)))"
    and N: "loc_N s = of_nat (2 * 2)"
    by blast
  from r have r1: "poly_at 1 (loc_r s) =
       cbd demo_prims 3 (fst (shake256_read demo_prims (shake256_hash demo_prims (demo_rc @ [1])) (64 * 3)))"
    by (simp add: numeral_2_eq_2)
  from e have e1: "poly_at 1 (loc_e1 s) =
       cbd demo_prims 2 (fst (shake256_read demo_prims (shake256_hash demo_prims (demo_rc @ [3])) (64 * 2)))"
    by (simp add: numeral_2_eq_2 numeral_3_eq_3)
  show ?thesis
    using s r1 e1 e2 N by simp
qed

text \<open>
  C4. The SHAKE256 object returned by \<open>encapsulate\<close> has absorbed exactly the 64 bytes
  \<open>K \<parallel> SHA3-256(c)\<close>, where \<open>K\<close> is the first 32 bytes of
  \<open>SHA3-512(SHA3-256(m) \<parallel> SHA3-256(pk))\<close>, \<open>m\<close> is the 32 bytes drawn from the random number
  generator and \<open>c\<close> is the ciphertext just written; the caller squeezes the shared secret
  from that object.
\<close>

theorem returned_hasher_input:
  assumes "prims_ok P" and "length pk = k * 12 * 32 + 32"
    and "length c0 = k * du * 32 + dv * 32"
  shows "\<exists>K. encapsulate P k eta1 eta2 du dv pk c0 rng = Some K \<and>
           kem_hasher K =
             shake256_hash P
               (take 32 (sha3_512 P (sha3_256 P (fst (random_data P rng 32)) @ sha3_256 P pk)) @
                sha3_256 P (kem_cipher K)) \<and>
           length (take 32 (sha3_512 P (sha3_256 P (fst (random_data P rng 32)) @ sha3_256 P pk)) @
                   sha3_256 P (kem_cipher K)) = 64"
proof -
  let ?K = "kem_result P k eta1 eta2 du dv pk c0 rng"
  have pk: "k * 384 + 32 \<le> length pk" and pk2: "k * 384 \<le> length pk"
    using assms(2) by simp_all
  have cl: "k * du * 32 + dv * 32 \<le> length c0" using assms(3) by simp
  have 1: "encapsulate P k eta1 eta2 du dv pk c0 rng = Some ?K"
    by (rule encapsulate_eq [OF assms(1) pk cl])
  have len: "length (kem_cipher ?K) = k * du * 32 + dv * 32"
    using assms by (simp add: kem_fields length_ciphertext prims_okD)
  have 2: "kem_hasher ?K =
           shake256_hash P
             (take 32 (sha3_512 P (sha3_256 P (fst (random_data P rng 32)) @ sha3_256 P pk)) @
              sha3_256 P (kem_cipher ?K))"
    using len assms(2)
    by (simp add: kem_hasher_field [OF assms(1) pk2] kem_fields(4))
  have 3: "length (take 32 (sha3_512 P (sha3_256 P (fst (random_data P rng 32)) @ sha3_256 P pk)) @
                   sha3_256 P (kem_cipher ?K)) = 64"
    using assms(1) by (simp add: prims_okD)
  show ?thesis using 1 2 3 by blast
qed

theorem returned_hasher_input_witness:
  "\<exists>K. encapsulate demo_prims 2 3 2 10 4 demo_pk demo_ct 7 = Some K \<and>
     kem_hasher K =
       shake256_hash demo_prims
         (take 32 (sha3_512 demo_prims (sha3_256 demo_prims (fst (random_data demo_prims 7 32)) @
            sha3_256 demo_prims demo_pk)) @
          sha3_256 demo_prims (kem_cipher K))"
  using returned_hasher_input [OF demo_ok, of demo_pk 2 demo_ct 10 4 3 2 7]
  by (simp add: demo_pk_def demo_ct_def) blast

text \<open>
  C5. For every \<open>(pk, msg, rcoin)\<close>, the ciphertext written by \<open>encrypt\<close> is laid out as
  \<open>k\<close> consecutive blocks of \<open>32 * du\<close> bytes, block \<open>i\<close> holding
  \<open>Encode_du(Compress_du(u[i]))\<close>, followed by one block of \<open>32 * dv\<close> bytes holding
  \<open>Encode_dv(Compress_dv(v))\<close>, for a total of exactly \<open>32 * (du * k + dv)\<close> bytes; \<open>u\<close>
  and \<open>v\<close> are the arrays as they are at line 181, before they are compressed in place.
\<close>

theorem ciphertext_layout:
  assumes "prims_ok P" and "length pk = k * 12 * 32 + 32" and "length ms = 32"
    and "length rc = 32" and "length ct = k * du * 32 + dv * 32"
  shows "\<exists>c s. encrypt_computed P k eta1 eta2 (enc_entry pk ms rc ct) = Some c \<and>
           encrypt P k eta1 eta2 du dv pk ms rc ct = Some s \<and>
           (\<forall>i<k. take (32 * du) (drop (i * (32 * du)) (enc s)) =
                    encode P du (poly_compress P du (poly_at i (loc_u c)))) \<and>
           take (32 * dv) (drop (k * (32 * du)) (enc s)) =
             encode P dv (poly_compress P dv (loc_v c)) \<and>
           length (enc s) = 32 * (du * k + dv)"
proof -
  let ?e = "enc_entry pk ms rc ct"
  let ?c = "computed_state P k eta1 eta2 ?e"
  let ?s = "final_state P k eta1 eta2 du dv ?e"
  let ?U = "u_poly P k eta1 eta2 pk rc"
  let ?V = "v_poly P k eta1 eta2 pk ms rc"
  let ?cb = "\<lambda>i. encode P du (poly_compress P du (?U i))"
  have pk2: "k * 384 \<le> length pk" using assms(2) by simp
  have 1: "encrypt_computed P k eta1 eta2 ?e = Some ?c"
    using assms by (intro encrypt_computed_eq) (simp_all add: entry_fields)
  have 2: "encrypt P k eta1 eta2 du dv pk ms rc ct = Some ?s"
    using assms by (intro encrypt_eq) simp_all
  have Ul: "\<forall>i<k. length (?U i) = ntt_N" using assms(1) by (simp add: length_u_poly)
  have cbl: "\<forall>i<k. length (?cb i) = 32 * du"
    using assms(1) Ul by (simp add: prims_okD)
  have Vl: "length (encode P dv (poly_compress P dv ?V)) = 32 * dv"
    using assms(1) length_v_poly [OF assms(1) pk2 assms(3)] by (simp add: prims_okD)
  have E: "enc ?s = blocks ?cb k @ encode P dv (poly_compress P dv ?V)"
    using assms by (simp add: final_fields entry_fields ciphertext_def)
  have lu: "\<forall>i<k. poly_at i (loc_u ?c) = ?U i"
    using assms Ul by (simp add: computed_fields entry_fields poly_at_blocks)
  have lv: "loc_v ?c = ?V"
    using assms by (simp add: computed_fields entry_fields)
  have 3: "\<forall>i<k. take (32 * du) (drop (i * (32 * du)) (enc ?s)) =
                  encode P du (poly_compress P du (poly_at i (loc_u ?c)))"
    using take_drop_bytes_blocks [OF cbl] lu by (simp add: E)
  have lb: "length (blocks ?cb k) = k * (32 * du)"
    using cbl by (rule length_blocks)
  have 4: "take (32 * dv) (drop (k * (32 * du)) (enc ?s)) =
           encode P dv (poly_compress P dv (loc_v ?c))"
    using lb Vl by (simp add: E lv)
  have 5: "length (enc ?s) = 32 * (du * k + dv)"
    using lb Vl by (simp add: E algebra_simps)
  show ?thesis using 1 2 3 4 5 by blast
qed

theorem ciphertext_layout_witness:
  "\<exists>c s. encrypt_computed demo_prims 2 3 2 (enc_entry demo_pk demo_ms demo_rc demo_ct) = Some c \<and>
     encrypt demo_prims 2 3 2 10 4 demo_pk demo_ms demo_rc demo_ct = Some s \<and>
     take (32 * 10) (drop (1 * (32 * 10)) (enc s)) =
       encode demo_prims 10 (poly_compress demo_prims 10 (poly_at 1 (loc_u c))) \<and>
     take (32 * 4) (drop (2 * (32 * 10)) (enc s)) =
       encode demo_prims 4 (poly_compress demo_prims 4 (loc_v c)) \<and>
     length (enc s) = 768"
proof -
  have a: "length demo_pk = 2 * 12 * 32 + 32" "length demo_ms = 32" "length demo_rc = 32"
    "length demo_ct = 2 * 10 * 32 + 4 * 32"
    by (simp_all add: demo_pk_def demo_ms_def demo_rc_def demo_ct_def)
  from ciphertext_layout [OF demo_ok a, of 3 2]
  obtain c s where
    f1: "encrypt_computed demo_prims 2 3 2 (enc_entry demo_pk demo_ms demo_rc demo_ct) = Some c"
    and f2: "encrypt demo_prims 2 3 2 10 4 demo_pk demo_ms demo_rc demo_ct = Some s"
    and f3: "\<forall>i<2. take (32 * 10) (drop (i * (32 * 10)) (enc s)) =
            encode demo_prims 10 (poly_compress demo_prims 10 (poly_at i (loc_u c)))"
    and f4: "take (32 * 4) (drop (2 * (32 * 10)) (enc s)) =
       encode demo_prims 4 (poly_compress demo_prims 4 (loc_v c))"
    and f5: "length (enc s) = 32 * (10 * 2 + 4)"
    by blast
  have g3: "take (32 * 10) (drop (1 * (32 * 10)) (enc s)) =
       encode demo_prims 10 (poly_compress demo_prims 10 (poly_at 1 (loc_u c)))"
    using f3 [rule_format, of 1] by simp
  have g5: "length (enc s) = 768" using f5 by simp
  show ?thesis using f1 f2 g3 f4 g5 by blast
qed

text \<open>
  C6. In \<open>encrypt\<close>, the polynomial \<open>v\<close> that gets compressed into the last ciphertext
  block equals \<open>INTT(t \<cdot> r) + e2 + Decompress_1(Decode_1(msg))\<close>, where \<open>t\<close> is the vector
  of the \<open>k\<close> polynomials obtained by applying \<open>Decode_12\<close> to the first \<open>k * 384\<close> bytes
  of \<open>pk\<close>, \<open>r\<close> is the vector of the NTT-transformed noise polynomials, the dot product
  is the sum over the \<open>k\<close> components of the pointwise products, and every addition is
  coefficient-wise in Z_q.
\<close>

theorem v_polynomial:
  assumes "prims_ok P" and "length pk = k * 12 * 32 + 32" and "length ms = 32"
    and "length rc = 32"
  shows "\<exists>s. encrypt_computed P k eta1 eta2 (enc_entry pk ms rc ct) = Some s \<and>
           loc_v s =
             poly_add
               (poly_add
                  (intt P (poly_sum
                     (map (\<lambda>i. polymul P (poly_at i (t_prime s)) (poly_at i (loc_r s))) [0..<k])))
                  (loc_e2 s))
               (poly_decompress P 1 (decode P 1 ms)) \<and>
           (\<forall>i<k. poly_at i (t_prime s) = decode P 12 (take (12 * 32) (drop (i * 12 * 32) pk)) \<and>
                  poly_at i (loc_r s) =
                    ntt P (cbd P eta1 (fst (shake256_read P (shake256_hash P (rc @ [of_nat i]))
                                          (64 * eta1))))) \<and>
           (\<forall>a b. poly_add a b = map2 ff_add a b) \<and>
           (\<forall>x y. unat (ff_add x y) = (unat x + unat y) mod 3329)"
proof -
  let ?e = "enc_entry pk ms rc ct"
  let ?s = "computed_state P k eta1 eta2 ?e"
  have pk2: "k * 384 \<le> length pk" using assms(2) by simp
  have 1: "encrypt_computed P k eta1 eta2 ?e = Some ?s"
    using assms by (intro encrypt_computed_eq) (simp_all add: entry_fields)
  have Tl: "\<forall>i<k. length (t_hat P pk i) = ntt_N"
    using assms(1) pk2 by (simp add: length_t_hat)
  have Rl: "\<forall>i<k. length (r_hat P eta1 rc i) = ntt_N"
    using assms(1) by (simp add: length_r_hat)
  have t: "\<forall>i<k. poly_at i (t_prime ?s) = t_hat P pk i"
    using Tl by (simp add: computed_fields entry_fields poly_at_blocks)
  have r: "\<forall>i<k. poly_at i (loc_r ?s) = r_hat P eta1 rc i"
    using Rl assms(4) by (simp add: computed_fields entry_fields poly_at_blocks)
  have m: "map (\<lambda>i. polymul P (poly_at i (t_prime ?s)) (poly_at i (loc_r ?s))) [0..<k] =
           map (\<lambda>i. polymul P (t_hat P pk i) (r_hat P eta1 rc i)) [0..<k]"
    using t r by (intro map_cong) simp_all
  have 2: "loc_v ?s =
             poly_add
               (poly_add
                  (intt P (poly_sum
                     (map (\<lambda>i. polymul P (poly_at i (t_prime ?s)) (poly_at i (loc_r ?s))) [0..<k])))
                  (loc_e2 ?s))
               (poly_decompress P 1 (decode P 1 ms))"
    unfolding m using assms(3,4) by (simp add: computed_fields entry_fields v_poly_def)
  have 3: "\<forall>i<k. poly_at i (t_prime ?s) = decode P 12 (take (12 * 32) (drop (i * 12 * 32) pk)) \<and>
                  poly_at i (loc_r ?s) =
                    ntt P (cbd P eta1 (fst (shake256_read P (shake256_hash P (rc @ [of_nat i]))
                                          (64 * eta1))))"
    using t r by (simp only: t_hat_def r_hat_def noise_unfold) blast
  have 4: "\<forall>a b. poly_add a b = map2 ff_add a b" by (simp add: poly_add_def)
  have 5: "\<forall>x y. unat (ff_add x y) = (unat x + unat y) mod 3329" by (simp add: unat_ff_add)
  show ?thesis using 1 2 3 4 5 by blast
qed

theorem v_polynomial_witness:
  "\<exists>s. encrypt_computed demo_prims 2 3 2 (enc_entry demo_pk demo_ms demo_rc demo_ct) = Some s \<and>
     loc_v s =
       poly_add
         (poly_add
            (intt demo_prims (poly_sum
               [polymul demo_prims (poly_at 0 (t_prime s)) (poly_at 0 (loc_r s)),
                polymul demo_prims (poly_at 1 (t_prime s)) (poly_at 1 (loc_r s))]))
            (loc_e2 s))
         (poly_decompress demo_prims 1 (decode demo_prims 1 demo_ms))"
proof -
  have a: "length demo_pk = 2 * 12 * 32 + 32" "length demo_ms = 32" "length demo_rc = 32"
    by (simp_all add: demo_pk_def demo_ms_def demo_rc_def)
  have u: "[0..<2] = [0, 1]" by (simp add: numeral_2_eq_2)
  from v_polynomial [OF demo_ok a, of 3 2 demo_ct]
  obtain s where
    "encrypt_computed demo_prims 2 3 2 (enc_entry demo_pk demo_ms demo_rc demo_ct) = Some s"
    "loc_v s =
       poly_add
         (poly_add
            (intt demo_prims (poly_sum
               (map (\<lambda>i. polymul demo_prims (poly_at i (t_prime s)) (poly_at i (loc_r s))) [0..<2])))
            (loc_e2 s))
         (poly_decompress demo_prims 1 (decode demo_prims 1 demo_ms))"
    by blast
  then show ?thesis by (simp add: u)
qed

text \<open>
  C7. \<open>encrypt\<close> is deterministic: two runs on identical \<open>(pk, msg, rcoin)\<close> write
  identical ciphertext bytes, whatever the output buffer held before; and \<open>encapsulate\<close>
  is a function of \<open>pk\<close> and of exactly one draw of 32 bytes from the random number
  generator: two runs with the same \<open>pk\<close> in which the draw returns the same 32 bytes
  produce identical ciphertexts and identical returned SHAKE256 objects, and each run
  leaves the generator in the state that follows this one draw.
\<close>

theorem deterministic_outputs:
  assumes "prims_ok P" and "length pk = k * 12 * 32 + 32" and "length ms = 32"
    and "length rc = 32" and "length ct1 = k * du * 32 + dv * 32"
    and "length ct2 = k * du * 32 + dv * 32"
    and "fst (random_data P rng1 32) = fst (random_data P rng2 32)"
  shows "(\<exists>s1 s2. encrypt P k eta1 eta2 du dv pk ms rc ct1 = Some s1 \<and>
                  encrypt P k eta1 eta2 du dv pk ms rc ct2 = Some s2 \<and>
                  enc s1 = enc s2) \<and>
         (\<exists>K1 K2. encapsulate P k eta1 eta2 du dv pk ct1 rng1 = Some K1 \<and>
                  encapsulate P k eta1 eta2 du dv pk ct2 rng2 = Some K2 \<and>
                  kem_cipher K1 = kem_cipher K2 \<and> kem_hasher K1 = kem_hasher K2 \<and>
                  kem_rng K1 = snd (random_data P rng1 32) \<and>
                  kem_rng K2 = snd (random_data P rng2 32))"
proof -
  have pk: "k * 384 + 32 \<le> length pk" and pk2: "k * 384 \<le> length pk"
    using assms(2) by simp_all
  have c1: "k * du * 32 + dv * 32 \<le> length ct1" and c2: "k * du * 32 + dv * 32 \<le> length ct2"
    using assms(5,6) by simp_all
  have e1: "encrypt P k eta1 eta2 du dv pk ms rc ct1 =
            Some (final_state P k eta1 eta2 du dv (enc_entry pk ms rc ct1))"
    using assms by (intro encrypt_eq) simp_all
  have e2: "encrypt P k eta1 eta2 du dv pk ms rc ct2 =
            Some (final_state P k eta1 eta2 du dv (enc_entry pk ms rc ct2))"
    using assms by (intro encrypt_eq) simp_all
  have e: "enc (final_state P k eta1 eta2 du dv (enc_entry pk ms rc ct1)) =
           enc (final_state P k eta1 eta2 du dv (enc_entry pk ms rc ct2))"
    using assms(5,6) by (simp add: final_fields entry_fields)
  have k1: "encapsulate P k eta1 eta2 du dv pk ct1 rng1 =
            Some (kem_result P k eta1 eta2 du dv pk ct1 rng1)"
    by (rule encapsulate_eq [OF assms(1) pk c1])
  have k2: "encapsulate P k eta1 eta2 du dv pk ct2 rng2 =
            Some (kem_result P k eta1 eta2 du dv pk ct2 rng2)"
    by (rule encapsulate_eq [OF assms(1) pk c2])
  have kc: "kem_cipher (kem_result P k eta1 eta2 du dv pk ct1 rng1) =
            kem_cipher (kem_result P k eta1 eta2 du dv pk ct2 rng2)"
    using assms(5,6,7) by (simp add: kem_fields)
  have kh: "kem_hasher (kem_result P k eta1 eta2 du dv pk ct1 rng1) =
            kem_hasher (kem_result P k eta1 eta2 du dv pk ct2 rng2)"
    using assms(7) by (simp add: kem_result_def Let_def)
  have kr: "kem_rng (kem_result P k eta1 eta2 du dv pk ct1 rng1) = snd (random_data P rng1 32)"
    "kem_rng (kem_result P k eta1 eta2 du dv pk ct2 rng2) = snd (random_data P rng2 32)"
    by (simp_all add: kem_fields)
  show ?thesis using e1 e2 e k1 k2 kc kh kr by blast
qed

theorem deterministic_outputs_witness:
  "(\<exists>s1 s2. encrypt demo_prims 2 3 2 10 4 demo_pk demo_ms demo_rc demo_ct = Some s1 \<and>
            encrypt demo_prims 2 3 2 10 4 demo_pk demo_ms demo_rc (replicate 768 255) = Some s2 \<and>
            enc s1 = enc s2) \<and>
   (\<exists>K1 K2. encapsulate demo_prims 2 3 2 10 4 demo_pk demo_ct 7 = Some K1 \<and>
            encapsulate demo_prims 2 3 2 10 4 demo_pk (replicate 768 255) 23 = Some K2 \<and>
            kem_cipher K1 = kem_cipher K2 \<and> kem_hasher K1 = kem_hasher K2 \<and>
            kem_rng K1 = 8 \<and> kem_rng K2 = 24)"
proof -
  have a: "length demo_pk = 2 * 12 * 32 + 32" "length demo_ms = 32" "length demo_rc = 32"
    "length demo_ct = 2 * 10 * 32 + 4 * 32" "length (replicate 768 (255::byte)) = 2 * 10 * 32 + 4 * 32"
    "fst (random_data demo_prims 7 32) = fst (random_data demo_prims 23 32)"
    by (simp_all add: demo_pk_def demo_ms_def demo_rc_def demo_ct_def demo_sel)
  have b: "snd (random_data demo_prims 7 32) = 8" "snd (random_data demo_prims 23 32) = 24"
    by (simp_all add: demo_sel)
  show ?thesis
    using deterministic_outputs [OF demo_ok a, of 3 2] by (simp only: b)
qed

text \<open>
  C8 (as amended). No working buffer of \<open>encapsulate\<close> or \<open>encrypt\<close> is zeroed before its
  storage is released: when the routines return, every local array still holds the last
  contents written to it. When \<open>encapsulate\<close> returns, \<open>m\<close> holds the 32 bytes drawn from
  the random number generator, \<open>g_in\<close> holds \<open>H(m) \<parallel> H(pk)\<close>, \<open>g_out\<close> holds \<open>G(g_in)\<close>,
  that is the pre-key followed by the coin, and \<open>kdf_in\<close> holds the pre-key followed by
  the hash of the ciphertext. When the run of \<open>encrypt\<close> inside it returns, \<open>t_prime\<close>
  holds the \<open>k\<close> polynomials decoded from \<open>pk\<close>, \<open>xof_in\<close> holds \<open>\<rho> \<parallel> k - 1 \<parallel> k - 1\<close>,
  \<open>A_prime\<close> holds the \<open>k * k\<close> matrix entries, \<open>N\<close> is \<open>2 * k\<close>, \<open>prf_in\<close> holds the coin
  followed by the last counter value \<open>2 * k\<close>, \<open>prf_out_eta1\<close> holds the PRF output for
  the counter value \<open>k - 1\<close> (the last one read for \<open>r\<close>), \<open>prf_out_eta2\<close> holds the PRF
  output for the counter value \<open>2 * k\<close>, \<open>r\<close> holds the NTT of its \<open>k\<close> CBD samples,
  \<open>e1\<close> holds its \<open>k\<close> CBD samples, \<open>e2\<close> holds the CBD sample made from
  \<open>prf_out_eta2\<close>, \<open>u\<close> and \<open>v\<close> hold the compressed polynomials, \<open>tmp\<close> holds the last
  product \<open>t_prime[k - 1] * r[k - 1]\<close>, and \<open>m\<close> holds the decoded and decompressed
  message \<open>H(m)\<close>. For \<open>k = 0\<close> the loops do not run, and bytes 32 and 33 of \<open>xof_in\<close>,
  \<open>prf_out_eta1\<close> and \<open>tmp\<close> hold the zeros of their declaration.
\<close>

theorem buffers_at_return:
  assumes "prims_ok P" and "length pk = k * 12 * 32 + 32"
    and "length c0 = k * du * 32 + dv * 32"
  shows "\<exists>K s. encapsulate P k eta1 eta2 du dv pk c0 rng = Some K \<and>
           encrypt P k eta1 eta2 du dv pk (kem_g_in K) (drop 32 (kem_g_out K)) c0 = Some s \<and>
           kem_m K = fst (random_data P rng 32) \<and>
           kem_g_in K = sha3_256 P (kem_m K) @ sha3_256 P pk \<and>
           kem_g_out K = sha3_512 P (kem_g_in K) \<and>
           kem_kdf_in K = take 32 (kem_g_out K) @ sha3_256 P (kem_cipher K) \<and>
           length (t_prime s) = k * ntt_N \<and>
           (\<forall>i<k. poly_at i (t_prime s) =
                    decode P 12 (take (12 * 32) (drop (i * 12 * 32) pk))) \<and>
           xof_in s = drop (k * 12 * 32) pk @
                      (if k = 0 then [0, 0] else [of_nat (k - 1), of_nat (k - 1)]) \<and>
           length (A_prime s) = k * k * ntt_N \<and>
           (\<forall>i<k. \<forall>j<k. poly_at (i * k + j) (A_prime s) =
                    parse P (shake128_hash P (drop (k * 12 * 32) pk @ [of_nat i, of_nat j]))) \<and>
           loc_N s = of_nat (2 * k) \<and>
           prf_in s = drop 32 (kem_g_out K) @ [of_nat (2 * k)] \<and>
           prf_out_eta1 s =
             (if k = 0 then replicate (64 * eta1) 0
              else fst (shake256_read P
                     (shake256_hash P (drop 32 (kem_g_out K) @ [of_nat (k - 1)])) (64 * eta1))) \<and>
           prf_out_eta2 s = fst (shake256_read P (shake256_hash P (prf_in s)) (64 * eta2)) \<and>
           length (loc_r s) = k * ntt_N \<and>
           (\<forall>i<k. poly_at i (loc_r s) =
                    ntt P (cbd P eta1 (fst (shake256_read P
                      (shake256_hash P (drop 32 (kem_g_out K) @ [of_nat i])) (64 * eta1))))) \<and>
           length (loc_e1 s) = k * ntt_N \<and>
           (\<forall>i<k. poly_at i (loc_e1 s) =
                    cbd P eta2 (fst (shake256_read P
                      (shake256_hash P (drop 32 (kem_g_out K) @ [of_nat (k + i)])) (64 * eta2)))) \<and>
           loc_e2 s = cbd P eta2 (prf_out_eta2 s) \<and>
           length (loc_u s) = k * ntt_N \<and>
           (\<forall>i<k. poly_at i (loc_u s) =
                    poly_compress P du
                      (poly_add
                         (intt P (poly_sum
                            (map (\<lambda>j. polymul P (poly_at (i * k + j) (A_prime s))
                                                (poly_at j (loc_r s))) [0..<k])))
                         (poly_at i (loc_e1 s)))) \<and>
           loc_tmp s =
             (if k = 0 then replicate ntt_N 0
              else polymul P (poly_at (k - 1) (t_prime s)) (poly_at (k - 1) (loc_r s))) \<and>
           loc_v s =
             poly_compress P dv
               (poly_add
                  (poly_add
                     (intt P (poly_sum
                        (map (\<lambda>i. polymul P (poly_at i (t_prime s)) (poly_at i (loc_r s)))
                           [0..<k])))
                     (loc_e2 s))
                  (loc_m s)) \<and>
           loc_m s = poly_decompress P 1 (decode P 1 (sha3_256 P (kem_m K)))"
proof -
  let ?K = "kem_result P k eta1 eta2 du dv pk c0 rng"
  let ?rc = "drop 32 (kem_g_out ?K)"
  let ?e = "enc_entry pk (kem_g_in ?K) ?rc c0"
  let ?s = "final_state P k eta1 eta2 du dv ?e"
  let ?ms = "sha3_256 P (kem_m ?K)"
  let ?rho = "pk_rho k pk"
  let ?Af = "\<lambda>p. A_entry P ?rho (p div k) (p mod k)"
  let ?U = "u_poly P k eta1 eta2 pk ?rc"
  have pk: "k * 384 + 32 \<le> length pk" and pk2: "k * 384 \<le> length pk"
    using assms(2) by simp_all
  have cl: "k * du * 32 + dv * 32 \<le> length c0" using assms(3) by simp
  have gl: "length (kem_g_out ?K) = 64" "length (kem_g_in ?K) = 64"
    using assms(1) by (simp_all add: kem_fields prims_okD)
  have rcl: "length ?rc = 32" using gl by simp
  have trc: "take 32 ?rc = ?rc" using rcl by simp
  have tms: "take 32 (kem_g_in ?K) = ?ms"
    using assms(1) by (simp add: kem_fields prims_okD)
  have msl: "length ?ms = 32" using assms(1) by (simp add: prims_okD)
  have tpk: "take (k * 12 * 32 + 32) pk = pk" using assms(2) by simp
  have 1: "encapsulate P k eta1 eta2 du dv pk c0 rng = Some ?K"
    by (rule encapsulate_eq [OF assms(1) pk cl])
  have 2: "encrypt P k eta1 eta2 du dv pk (kem_g_in ?K) ?rc c0 = Some ?s"
    using gl by (intro encrypt_eq [OF assms(1) pk _ _ cl]) simp_all
  have 3: "kem_m ?K = fst (random_data P rng 32)" by (simp add: kem_fields)
  have 4: "kem_g_in ?K = sha3_256 P (kem_m ?K) @ sha3_256 P pk"
    by (simp only: kem_fields tpk)
  have 5: "kem_g_out ?K = sha3_512 P (kem_g_in ?K)"
    by (simp only: kem_fields)
  have len: "length (kem_cipher ?K) = k * du * 32 + dv * 32"
    using assms by (simp add: kem_fields length_ciphertext prims_okD)
  have 6: "kem_kdf_in ?K = take 32 (kem_g_out ?K) @ sha3_256 P (kem_cipher ?K)"
    using len by (simp add: kem_hasher_field(2) [OF assms(1) pk2])
  have Tl: "\<forall>i<k. length (t_hat P pk i) = ntt_N"
    using assms(1) pk2 by (simp add: length_t_hat)
  have Al: "\<forall>p<k * k. length (?Af p) = ntt_N"
    using assms(1) by (simp add: length_A_entry)
  have Rl: "\<forall>i<k. length (r_hat P eta1 ?rc i) = ntt_N"
    using assms(1) by (simp add: length_r_hat)
  have El: "\<forall>i<k. length (noise P eta2 ?rc (k + i)) = ntt_N"
    using assms(1) by (simp add: length_noise)
  have Ul: "\<forall>i<k. length (?U i) = ntt_N"
    using assms(1) by (simp add: length_u_poly)
  have Cl: "\<forall>i<k. length (poly_compress P du (?U i)) = ntt_N"
    using assms(1) Ul by (simp add: prims_okD)
  have Ts: "t_prime ?s = blocks (t_hat P pk) k"
    by (simp add: final_fields_more entry_fields)
  have As: "A_prime ?s = blocks ?Af (k * k)"
    by (simp add: final_fields entry_fields)
  have Rs: "loc_r ?s = blocks (r_hat P eta1 ?rc) k"
    by (simp only: final_fields_more entry_fields trc)
  have Es: "loc_e1 ?s = blocks (\<lambda>i. noise P eta2 ?rc (k + i)) k"
    by (simp only: final_fields_more entry_fields trc)
  have Us: "loc_u ?s = blocks (\<lambda>i. poly_compress P du (?U i)) k"
    by (simp only: final_fields_more entry_fields trc)
  have 7: "length (t_prime ?s) = k * ntt_N"
    unfolding Ts by (rule length_blocks [OF Tl])
  have t: "\<forall>i<k. poly_at i (t_prime ?s) = t_hat P pk i"
    unfolding Ts using Tl by (simp add: poly_at_blocks)
  have 8: "\<forall>i<k. poly_at i (t_prime ?s) =
                    decode P 12 (take (12 * 32) (drop (i * 12 * 32) pk))"
    using t by (simp only: t_hat_def)
  have 9: "xof_in ?s = drop (k * 12 * 32) pk @
                      (if k = 0 then [0, 0] else [of_nat (k - 1), of_nat (k - 1)])"
    by (simp only: final_fields_more entry_fields pk_rho_exact [OF assms(2)])
  have 10: "length (A_prime ?s) = k * k * ntt_N"
    unfolding As by (rule length_blocks [OF Al])
  have a: "poly_at (i * k + j) (A_prime ?s) = A_entry P ?rho i j" if "i < k" "j < k" for i j
  proof -
    have "i * k + j < k * k" using that by (rule idx_lt)
    with Al have "poly_at (i * k + j) (blocks ?Af (k * k)) = ?Af (i * k + j)"
      by (rule poly_at_blocks)
    then show ?thesis using that by (simp add: As)
  qed
  have 11: "\<forall>i<k. \<forall>j<k. poly_at (i * k + j) (A_prime ?s) =
                    parse P (shake128_hash P (drop (k * 12 * 32) pk @ [of_nat i, of_nat j]))"
    using a by (simp only: A_entry_def xof_seed_def pk_rho_exact [OF assms(2)]) blast
  have 12: "loc_N ?s = of_nat (2 * k)" by (simp only: final_fields_more)
  have 13: "prf_in ?s = ?rc @ [of_nat (2 * k)]"
    by (simp only: final_fields entry_fields trc)
  have 14: "prf_out_eta1 ?s =
             (if k = 0 then replicate (64 * eta1) 0
              else fst (shake256_read P (shake256_hash P (?rc @ [of_nat (k - 1)])) (64 * eta1)))"
    by (simp only: final_fields_more entry_fields trc prf_bytes_def)
  have 15: "prf_out_eta2 ?s = fst (shake256_read P (shake256_hash P (prf_in ?s)) (64 * eta2))"
    by (simp only: final_fields entry_fields trc prf_bytes_def)
  have 16: "length (loc_r ?s) = k * ntt_N"
    unfolding Rs by (rule length_blocks [OF Rl])
  have r: "\<forall>i<k. poly_at i (loc_r ?s) = r_hat P eta1 ?rc i"
    unfolding Rs using Rl by (simp add: poly_at_blocks)
  have 17: "\<forall>i<k. poly_at i (loc_r ?s) =
                    ntt P (cbd P eta1 (fst (shake256_read P
                      (shake256_hash P (?rc @ [of_nat i])) (64 * eta1))))"
    using r by (simp only: r_hat_def noise_unfold)
  have 18: "length (loc_e1 ?s) = k * ntt_N"
    unfolding Es by (rule length_blocks [OF El])
  have e: "\<forall>i<k. poly_at i (loc_e1 ?s) = noise P eta2 ?rc (k + i)"
    unfolding Es using El by (simp add: poly_at_blocks)
  have 19: "\<forall>i<k. poly_at i (loc_e1 ?s) =
                    cbd P eta2 (fst (shake256_read P
                      (shake256_hash P (?rc @ [of_nat (k + i)])) (64 * eta2)))"
    using e by (simp only: noise_unfold)
  have e2: "loc_e2 ?s = noise P eta2 ?rc (2 * k)"
    by (simp only: final_fields entry_fields trc)
  have 20: "loc_e2 ?s = cbd P eta2 (prf_out_eta2 ?s)"
    by (simp only: final_fields entry_fields trc noise_def)
  have 21: "length (loc_u ?s) = k * ntt_N"
    unfolding Us by (rule length_blocks [OF Cl])
  have u: "\<forall>i<k. poly_at i (loc_u ?s) = poly_compress P du (?U i)"
    unfolding Us using Cl by (simp add: poly_at_blocks)
  have um: "map (\<lambda>j. polymul P (poly_at (i * k + j) (A_prime ?s)) (poly_at j (loc_r ?s))) [0..<k] =
            map (\<lambda>j. polymul P (A_entry P ?rho i j) (r_hat P eta1 ?rc j)) [0..<k]"
    if "i < k" for i
    using r a [OF that] by (intro map_cong) simp_all
  have 22: "\<forall>i<k. poly_at i (loc_u ?s) =
                    poly_compress P du
                      (poly_add
                         (intt P (poly_sum
                            (map (\<lambda>j. polymul P (poly_at (i * k + j) (A_prime ?s))
                                                (poly_at j (loc_r ?s))) [0..<k])))
                         (poly_at i (loc_e1 ?s)))"
  proof (intro allI impI)
    fix i assume i: "i < k"
    have "poly_at i (loc_u ?s) = poly_compress P du (?U i)" using u i by blast
    also have "?U i = poly_add
                         (intt P (poly_sum
                            (map (\<lambda>j. polymul P (poly_at (i * k + j) (A_prime ?s))
                                                (poly_at j (loc_r ?s))) [0..<k])))
                         (poly_at i (loc_e1 ?s))"
      using e i by (simp only: um [OF i] u_poly_def)
    finally show "poly_at i (loc_u ?s) =
                    poly_compress P du
                      (poly_add
                         (intt P (poly_sum
                            (map (\<lambda>j. polymul P (poly_at (i * k + j) (A_prime ?s))
                                                (poly_at j (loc_r ?s))) [0..<k])))
                         (poly_at i (loc_e1 ?s)))" .
  qed
  have 23: "loc_tmp ?s =
             (if k = 0 then replicate ntt_N 0
              else polymul P (poly_at (k - 1) (t_prime ?s)) (poly_at (k - 1) (loc_r ?s)))"
  proof (cases "k = 0")
    case True
    then show ?thesis by (simp add: final_fields_more poly_zero_def)
  next
    case False
    then have "k - 1 < k" by simp
    then have "poly_at (k - 1) (t_prime ?s) = t_hat P pk (k - 1)"
      "poly_at (k - 1) (loc_r ?s) = r_hat P eta1 ?rc (k - 1)"
      using t r by blast+
    then show ?thesis using False trc by (simp add: final_fields_more entry_fields)
  qed
  have 25: "loc_m ?s = poly_decompress P 1 (decode P 1 (sha3_256 P (kem_m ?K)))"
    by (simp only: final_fields entry_fields tms)
  have vm: "map (\<lambda>i. polymul P (poly_at i (t_prime ?s)) (poly_at i (loc_r ?s))) [0..<k] =
            map (\<lambda>i. polymul P (t_hat P pk i) (r_hat P eta1 ?rc i)) [0..<k]"
    using t r by (intro map_cong) simp_all
  have 24: "loc_v ?s =
             poly_compress P dv
               (poly_add
                  (poly_add
                     (intt P (poly_sum
                        (map (\<lambda>i. polymul P (poly_at i (t_prime ?s)) (poly_at i (loc_r ?s)))
                           [0..<k])))
                     (loc_e2 ?s))
                  (loc_m ?s))"
    unfolding vm e2 25
    by (simp only: final_fields_more entry_fields trc tms v_poly_def)
  show ?thesis
    using 1 2 3 4 5 6 7 8 9 10 11 12 13 14 15 16 17 18 19 20 21 22 23 24 25 by blast
qed

theorem buffers_at_return_witness:
  "\<exists>K s. encapsulate demo_prims 2 3 2 10 4 demo_pk demo_ct 7 = Some K \<and>
     encrypt demo_prims 2 3 2 10 4 demo_pk (kem_g_in K) (drop 32 (kem_g_out K)) demo_ct = Some s \<and>
     kem_m K = replicate 32 7 \<and>
     kem_g_in K = replicate 32 8 @ replicate 32 1 \<and>
     kem_g_out K = replicate 64 10 \<and>
     xof_in s = replicate 32 0 @ [1, 1] \<and>
     poly_at (1 * 2 + 0) (A_prime s) = replicate ntt_N 1 \<and>
     prf_in s = replicate 32 10 @ [4] \<and>
     prf_out_eta1 s = replicate 192 1 \<and>
     prf_out_eta2 s = replicate 128 4 \<and>
     poly_at 1 (loc_r s) = replicate ntt_N 1 \<and>
     poly_at 0 (loc_e1 s) = replicate ntt_N 2 \<and>
     loc_e2 s = replicate ntt_N 4 \<and>
     poly_at 0 (loc_u s) = replicate ntt_N 2 \<and>
     loc_v s = replicate ntt_N 12 \<and>
     loc_m s = replicate ntt_N 8"
proof -
  have a: "length demo_pk = 2 * 12 * 32 + 32" "length demo_ct = 2 * 10 * 32 + 4 * 32"
    by (simp_all add: demo_pk_def demo_ct_def)
  from buffers_at_return [OF demo_ok a, of 3 2 7]
  obtain K s where
    f1: "encapsulate demo_prims 2 3 2 10 4 demo_pk demo_ct 7 = Some K" and
    f2: "encrypt demo_prims 2 3 2 10 4 demo_pk (kem_g_in K) (drop 32 (kem_g_out K)) demo_ct = Some s"
    and m: "kem_m K = fst (random_data demo_prims 7 32)"
    and gi: "kem_g_in K = sha3_256 demo_prims (kem_m K) @ sha3_256 demo_prims demo_pk"
    and go: "kem_g_out K = sha3_512 demo_prims (kem_g_in K)"
    and x: "xof_in s = drop (2 * 12 * 32) demo_pk @
                      (if (2::nat) = 0 then [0, 0] else [of_nat (2 - 1), of_nat (2 - 1)])"
    and A: "\<forall>i<2. \<forall>j<2. poly_at (i * 2 + j) (A_prime s) =
              parse demo_prims (shake128_hash demo_prims
                (drop (2 * 12 * 32) demo_pk @ [of_nat i, of_nat j]))"
    and pin: "prf_in s = drop 32 (kem_g_out K) @ [of_nat (2 * 2)]"
    and p1: "prf_out_eta1 s =
             (if (2::nat) = 0 then replicate (64 * 3) 0
              else fst (shake256_read demo_prims
                     (shake256_hash demo_prims (drop 32 (kem_g_out K) @ [of_nat (2 - 1)])) (64 * 3)))"
    and p2: "prf_out_eta2 s =
             fst (shake256_read demo_prims (shake256_hash demo_prims (prf_in s)) (64 * 2))"
    and r: "\<forall>i<2. poly_at i (loc_r s) =
              ntt demo_prims (cbd demo_prims 3 (fst (shake256_read demo_prims
                (shake256_hash demo_prims (drop 32 (kem_g_out K) @ [of_nat i])) (64 * 3))))"
    and e1: "\<forall>i<2. poly_at i (loc_e1 s) =
              cbd demo_prims 2 (fst (shake256_read demo_prims
                (shake256_hash demo_prims (drop 32 (kem_g_out K) @ [of_nat (2 + i)])) (64 * 2)))"
    and e2: "loc_e2 s = cbd demo_prims 2 (prf_out_eta2 s)"
    and u: "\<forall>i<2. poly_at i (loc_u s) =
              poly_compress demo_prims 10
                (poly_add
                   (intt demo_prims (poly_sum
                      (map (\<lambda>j. polymul demo_prims (poly_at (i * 2 + j) (A_prime s))
                                                   (poly_at j (loc_r s))) [0..<2])))
                   (poly_at i (loc_e1 s)))"
    and v: "loc_v s =
             poly_compress demo_prims 4
               (poly_add
                  (poly_add
                     (intt demo_prims (poly_sum
                        (map (\<lambda>i. polymul demo_prims (poly_at i (t_prime s)) (poly_at i (loc_r s)))
                           [0..<2])))
                     (loc_e2 s))
                  (loc_m s))"
    and lm: "loc_m s = poly_decompress demo_prims 1 (decode demo_prims 1 (sha3_256 demo_prims (kem_m K)))"
    by blast
  have g1: "kem_m K = replicate 32 7" using m by (simp add: demo_sel)
  have g2: "kem_g_in K = replicate 32 8 @ replicate 32 1"
    using gi by (simp add: g1 demo_sel demo_pk_def first_byte_replicate)
  have g3: "kem_g_out K = replicate 64 10"
    using go by (simp add: g2 demo_sel first_byte_replicate_append)
  have rc: "drop 32 (kem_g_out K) = replicate 32 10" by (simp add: g3)
  have g4: "xof_in s = replicate 32 0 @ [1, 1]" using x by (simp add: demo_pk_def)
  have g5: "poly_at (1 * 2 + 0) (A_prime s) = replicate ntt_N 1"
    using A [rule_format, of 1 0]
    by (simp add: demo_sel demo_pk_def byte_at_def nth_append const_poly_def)
  have g6: "prf_in s = replicate 32 10 @ [4]" using pin by (simp add: rc)
  have g7: "prf_out_eta1 s = replicate 192 1"
    using p1 by (simp add: rc demo_sel byte_at_def nth_append)
  have g8: "prf_out_eta2 s = replicate 128 4"
    using p2 by (simp add: g6 demo_sel byte_at_def nth_append)
  have g9: "poly_at 1 (loc_r s) = replicate ntt_N 1"
    using r [rule_format, of 1]
    by (simp add: rc demo_sel byte_at_def nth_append first_byte_replicate const_poly_def)
  have g10: "poly_at 0 (loc_e1 s) = replicate ntt_N 2"
    using e1 [rule_format, of 0]
    by (simp add: rc demo_sel byte_at_def nth_append first_byte_replicate const_poly_def)
  have g11: "loc_e2 s = replicate ntt_N 4"
    using e2 by (simp add: g8 demo_sel first_byte_replicate const_poly_def)
  have g12: "loc_m s = replicate ntt_N 8"
    using lm by (simp add: g1 demo_sel first_byte_replicate const_poly_def)
  have g13: "poly_at 0 (loc_u s) = replicate ntt_N 2"
    using u [rule_format, of 0]
    by (simp add: g10 demo_sel demo_poly_sum poly_add_replicate ff_add_def ff_q_def)
  have g14: "loc_v s = replicate ntt_N 12"
    using v
    by (simp add: g11 g12 demo_sel demo_poly_sum poly_add_replicate ff_add_def ff_q_def)
  show ?thesis
    using f1 f2 g1 g2 g3 g4 g5 g6 g7 g8 g9 g10 g11 g12 g13 g14 by blast
qed

text \<open>
  The buffer \<open>m\<close> of \<open>encapsulate\<close> is not zero when the routine returns: on the instance
  above, where the generator returns 32 bytes of value 7, it still holds these bytes.
\<close>

theorem message_buffer_not_wiped_counterexample:
  "map_option kem_m (encapsulate demo_prims 2 3 2 10 4 demo_pk demo_ct 7) = Some (replicate 32 7) \<and>
   replicate 32 (7::byte) \<noteq> replicate 32 0"
proof -
  have 1: "encapsulate demo_prims 2 3 2 10 4 demo_pk demo_ct 7 =
           Some (kem_result demo_prims 2 3 2 10 4 demo_pk demo_ct 7)"
    by (rule encapsulate_eq [OF demo_ok]) (simp_all add: demo_pk_def demo_ct_def)
  show ?thesis
    by (simp only: 1 option.map kem_fields) (simp add: demo_sel)
qed

text \<open>
  C9. For every correctly sized input (\<open>pk\<close> of \<open>k * 384 + 32\<close> bytes, \<open>msg\<close> of 32 bytes,
  \<open>rcoin\<close> of 32 bytes, output buffer of \<open>32 * (du * k + dv)\<close> bytes) \<open>encrypt\<close> and
  \<open>encapsulate\<close> return, and no access to \<open>t_prime\<close>, \<open>A_prime\<close>, \<open>r\<close>, \<open>e1\<close>, \<open>e2\<close>, \<open>u\<close>,
  \<open>v\<close>, \<open>tmp\<close> or to the byte buffers leaves its buffer: the embedding, in which every
  loop is bounded and every access outside a buffer gives \<open>None\<close>, gives a result. The
  absent routines are taken to return, with results of the sizes of their contracts.
\<close>

theorem no_failure_path:
  assumes "prims_ok P" and "length pk = k * 12 * 32 + 32" and "length ms = 32"
    and "length rc = 32" and "length ct = k * du * 32 + dv * 32"
  shows "encrypt P k eta1 eta2 du dv pk ms rc ct \<noteq> None \<and>
         encapsulate P k eta1 eta2 du dv pk ct rng \<noteq> None"
proof -
  have pk: "k * 384 + 32 \<le> length pk" using assms(2) by simp
  have cl: "k * du * 32 + dv * 32 \<le> length ct" using assms(5) by simp
  have "encrypt P k eta1 eta2 du dv pk ms rc ct =
        Some (final_state P k eta1 eta2 du dv (enc_entry pk ms rc ct))"
    using assms by (intro encrypt_eq) simp_all
  moreover have "encapsulate P k eta1 eta2 du dv pk ct rng =
        Some (kem_result P k eta1 eta2 du dv pk ct rng)"
    by (rule encapsulate_eq [OF assms(1) pk cl])
  ultimately show ?thesis by simp
qed

theorem no_failure_path_witness:
  "encrypt demo_prims 2 3 2 10 4 demo_pk demo_ms demo_rc demo_ct \<noteq> None \<and>
   encapsulate demo_prims 2 3 2 10 4 demo_pk demo_ct 7 \<noteq> None"
proof -
  have a: "length demo_pk = 2 * 12 * 32 + 32" "length demo_ms = 32" "length demo_rc = 32"
    "length demo_ct = 2 * 10 * 32 + 4 * 32"
    by (simp_all add: demo_pk_def demo_ms_def demo_rc_def demo_ct_def)
  show ?thesis by (rule no_failure_path [OF demo_ok a])
qed

text \<open>
  C10. \<open>encrypt\<close> changes only the output buffer: for every \<open>(pk, msg, rcoin)\<close>, after
  \<open>encrypt\<close> returns, the \<open>pk\<close>, \<open>msg\<close> and \<open>rcoin\<close> buffers hold the bytes they held on
  entry, and of the output buffer only the first \<open>k * du * 32 + dv * 32\<close> bytes are
  written: the buffer keeps its length and every byte behind them.
\<close>

theorem encrypt_frame:
  assumes "prims_ok P" and "length pk = k * 12 * 32 + 32" and "length ms = 32"
    and "length rc = 32" and "k * du * 32 + dv * 32 \<le> length ct"
  shows "\<exists>s. encrypt P k eta1 eta2 du dv pk ms rc ct = Some s \<and>
           pubkey s = pk \<and> msg s = ms \<and> rcoin s = rc \<and>
           length (enc s) = length ct \<and>
           drop (k * du * 32 + dv * 32) (enc s) = drop (k * du * 32 + dv * 32) ct"
proof -
  let ?s = "final_state P k eta1 eta2 du dv (enc_entry pk ms rc ct)"
  have pk2: "k * 384 \<le> length pk" using assms(2) by simp
  have 1: "encrypt P k eta1 eta2 du dv pk ms rc ct = Some ?s"
    using assms by (intro encrypt_eq) simp_all
  have len: "length (ciphertext P k eta1 eta2 du dv pk ms rc) = k * du * 32 + dv * 32"
    by (rule length_ciphertext [OF assms(1) pk2 assms(3)])
  have 2: "pubkey ?s = pk" "msg ?s = ms" "rcoin ?s = rc"
    by (simp_all add: final_fields entry_fields)
  have E: "enc ?s = ciphertext P k eta1 eta2 du dv pk ms rc @ drop (k * du * 32 + dv * 32) ct"
    using assms(3,4) by (simp add: final_fields entry_fields)
  have 3: "length (enc ?s) = length ct"
    using len assms(5) by (simp add: E)
  have 4: "drop (k * du * 32 + dv * 32) (enc ?s) = drop (k * du * 32 + dv * 32) ct"
    using len by (simp add: E)
  show ?thesis using 1 2 3 4 by blast
qed

theorem encrypt_frame_witness:
  "\<exists>s. encrypt demo_prims 2 3 2 10 4 demo_pk demo_ms demo_rc (demo_ct @ [9, 9]) = Some s \<and>
     pubkey s = demo_pk \<and> msg s = demo_ms \<and> rcoin s = demo_rc \<and>
     length (enc s) = 770 \<and> drop 768 (enc s) = [9, 9]"
proof -
  have a: "length demo_pk = 2 * 12 * 32 + 32" "length demo_ms = 32" "length demo_rc = 32"
    "2 * 10 * 32 + 4 * 32 \<le> length (demo_ct @ [9, 9])"
    by (simp_all add: demo_pk_def demo_ms_def demo_rc_def demo_ct_def)
  from encrypt_frame [OF demo_ok a, of 3 2]
  show ?thesis by (simp add: demo_ct_def)
qed


end
